theory Spec2Isabelle
  imports Main "HOL-Library.Word"
begin

unbundle bit_operations_syntax

section \<open>Common types\<close>

type_synonym u8 = "8 word"
type_synonym u16 = "16 word"
type_synonym u32 = "32 word"
type_synonym u64 = "64 word"
type_synonym path = string
type_synonym streamoff = "64 word"

text \<open>
  The three C++ exception classes the sources throw. The message is the literal text of the
  throw site; interpolated numbers are rendered with \<open>to_string\<close> where the claims look
  at them, and left out of the messages of the two stream helpers of parse.hpp.
\<close>

datatype error = runtime_error string | out_of_range string | invalid_argument string

text \<open>\<open>std::to_string\<close> on an unsigned integer: decimal, no padding.\<close>

fun to_string :: "nat \<Rightarrow> string" where
  "to_string n =
     (if n < 10 then [''0123456789'' ! n]
      else to_string (n div 10) @ [''0123456789'' ! (n mod 10)])"

declare to_string.simps [simp del]

section \<open>bit.hpp\<close>

definition make_bit_mask :: "nat \<Rightarrow> nat \<Rightarrow> 'a::len word" where
  "make_bit_mask start len = push_bit start (push_bit len 1 - 1)"

definition bit_test :: "'a::len word \<Rightarrow> nat \<Rightarrow> bool" where
  "bit_test val i = ((val AND make_bit_mask i 1) \<noteq> 0)"

definition bit_extract :: "'a::len word \<Rightarrow> nat \<Rightarrow> nat \<Rightarrow> 'a word" where
  "bit_extract val start len = drop_bit start (val AND make_bit_mask start len)"

definition sign_extend :: "'a::len word \<Rightarrow> nat \<Rightarrow> 'a word" where
  "sign_extend val i =
     (if bit_test val i then val OR make_bit_mask i (LENGTH('a) - i) else val)"

section \<open>parse.hpp: reading from a seekable byte stream\<close>

text \<open>
  A stream is its content (fixed while it is read) and a position. Every helper of
  parse.hpp throws as soon as the stream goes bad, so a reader either fails with the
  exception or returns its value and the new position. The streams of the program are
  file streams: a seek to a negative position fails, a seek beyond the end succeeds and the
  next read fails. A short read sets the fail bit, so \<open>read_stream\<close> leaves through
  its \<open>!ret\<close> test, with a runtime error. A read of no byte succeeds wherever the
  position is: \<open>istream::read\<close> of zero bytes sets no state bit.
\<close>

type_synonym 'a reader = "u8 list \<Rightarrow> nat \<Rightarrow> error + ('a \<times> nat)"

definition ret :: "'a \<Rightarrow> 'a reader" where
  "ret v bs pos = Inr (v, pos)"

definition throw :: "error \<Rightarrow> 'a reader" where
  "throw e bs pos = Inl e"

definition bnd :: "'a reader \<Rightarrow> ('a \<Rightarrow> 'b reader) \<Rightarrow> 'b reader" where
  "bnd m f bs pos = (case m bs pos of Inl e \<Rightarrow> Inl e | Inr (v, pos') \<Rightarrow> f v bs pos')"

definition tellg :: "nat reader" where
  "tellg bs pos = Inr (pos, pos)"

datatype seekdir = beg | cur

definition seek_stream :: "int \<Rightarrow> seekdir \<Rightarrow> unit reader" where
  "seek_stream npos dir bs pos =
     (let target = (case dir of beg \<Rightarrow> npos | cur \<Rightarrow> int pos + npos)
      in if target < 0 then Inl (out_of_range ''seek failed; out of range'')
         else Inr ((), nat target))"

definition read_stream :: "nat \<Rightarrow> u8 list reader" where
  "read_stream n bs pos =
     (if n = 0 then Inr ([], pos)
      else if pos + n \<le> length bs then Inr (take n (drop pos bs), pos + n)
      else Inl (runtime_error ''failed to read bytes from stream; bad stream''))"

definition read_u8 :: "u8 reader" where
  "read_u8 = bnd (read_stream 1) (\<lambda>b. ret (b ! 0))"

definition read_u16_le :: "u16 reader" where
  "read_u16_le = bnd (read_stream 2) (\<lambda>b.
     ret (ucast (b ! 0) OR push_bit 8 (ucast (b ! 1))))"

definition read_u32_le :: "u32 reader" where
  "read_u32_le = bnd (read_stream 4) (\<lambda>b.
     ret (ucast (b ! 0) OR push_bit 8 (ucast (b ! 1)) OR push_bit 16 (ucast (b ! 2))
          OR push_bit 24 (ucast (b ! 3))))"

definition read_u64_le :: "u64 reader" where
  "read_u64_le = bnd (read_stream 8) (\<lambda>b.
     ret (ucast (b ! 0) OR push_bit 8 (ucast (b ! 1)) OR push_bit 16 (ucast (b ! 2))
          OR push_bit 24 (ucast (b ! 3)) OR push_bit 32 (ucast (b ! 4))
          OR push_bit 40 (ucast (b ! 5)) OR push_bit 48 (ucast (b ! 6))
          OR push_bit 56 (ucast (b ! 7))))"

text \<open>
  \<open>read_cstr\<close>: bytes up to the first NUL, which is consumed; running into the end of
  the stream first is the failed one-byte read. The helper walks the bytes that remain
  after the position.
\<close>

fun cstr_scan :: "u8 list \<Rightarrow> (u8 list \<times> nat) option" where
  "cstr_scan [] = None"
| "cstr_scan (b # rest) =
     (if b = 0 then Some ([], 1)
      else (case cstr_scan rest of None \<Rightarrow> None | Some (s, n) \<Rightarrow> Some (b # s, Suc n)))"

definition read_cstr :: "string reader" where
  "read_cstr bs pos =
     (case cstr_scan (drop pos bs) of
        None \<Rightarrow> Inl (runtime_error ''failed to read bytes from stream; bad stream'')
      | Some (s, n) \<Rightarrow> Inr (map (\<lambda>b. char_of (unat b)) s, pos + n))"

text \<open>
  \<open>read_cstrn\<close>: at most \<open>n\<close> bytes, stopping at a NUL (which is stepped back over),
  then a relative seek over what is left of the \<open>n\<close> bytes.
\<close>

fun cstrn_loop :: "nat \<Rightarrow> u8 list \<Rightarrow> error + u8 list" where
  "cstrn_loop 0 rest = Inr []"
| "cstrn_loop (Suc k) [] = Inl (runtime_error ''failed to read bytes from stream; bad stream'')"
| "cstrn_loop (Suc k) (b # rest) =
     (if b = 0 then Inr []
      else (case cstrn_loop k rest of Inl e \<Rightarrow> Inl e | Inr s \<Rightarrow> Inr (b # s)))"

definition read_cstrn :: "nat \<Rightarrow> string reader" where
  "read_cstrn n bs pos =
     (case cstrn_loop n (drop pos bs) of
        Inl e \<Rightarrow> Inl e
      | Inr s \<Rightarrow> Inr (map (\<lambda>b. char_of (unat b)) s, pos + n))"

section \<open>uuid.hpp\<close>

type_synonym DyldUUID = "u8 list"

definition DyldUUID_default :: DyldUUID where
  "DyldUUID_default = replicate 16 0"

definition DyldUUID_read :: "DyldUUID reader" where
  "DyldUUID_read = read_stream 16"

definition DyldUUID_null :: "DyldUUID \<Rightarrow> bool" where
  "DyldUUID_null u = (u = DyldUUID_default)"

section \<open>cache.hpp: the header record\<close>

record Mapping =
  Mapping_base :: u64
  Mapping_size :: u64
  Mapping_file_off :: u64

record Image =
  Image_base :: u64
  Image_path :: string

record LocalSymbols =
  nlist_start_index :: u32
  nlist_count :: u32

record LocalSymbolsInfo =
  nlist_off :: u32
  strings_off :: u32
  entries :: "(u64 \<times> LocalSymbols) list"

record Subcache =
  vm_off :: u64
  suffix :: string

record DyldCacheHeader =
  mappings :: "Mapping list"
  images :: "Image list"
  cache_base :: u64
  local_symbols_off :: int
  local_symbols :: LocalSymbolsInfo
  subcaches :: "Subcache list"
  symbol_file_uuid :: DyldUUID

datatype Type = Main | Sub | Symbols

fun vm_addr_to_file_off_loop :: "Mapping list \<Rightarrow> u64 \<Rightarrow> error + u64" where
  "vm_addr_to_file_off_loop [] vm_addr =
     Inl (out_of_range (''address '' @ to_string (unat vm_addr) @ '' not found''))"
| "vm_addr_to_file_off_loop (m # ms) vm_addr =
     (if vm_addr \<ge> Mapping_base m \<and> vm_addr < Mapping_base m + Mapping_size m
      then Inr (Mapping_file_off m + (vm_addr - Mapping_base m))
      else vm_addr_to_file_off_loop ms vm_addr)"

text \<open>
  The result is converted to \<open>std::streamoff\<close>, a signed 64-bit integer: the same
  64 bits, read with \<open>sint\<close> where the sign matters.
\<close>

definition vm_addr_to_file_off :: "DyldCacheHeader \<Rightarrow> u64 \<Rightarrow> error + streamoff" where
  "vm_addr_to_file_off h vm_addr = vm_addr_to_file_off_loop (mappings h) vm_addr"

section \<open>cache.hpp: the constructors\<close>

text \<open>
  Each constructor reads from the stream at its position and leaves the position behind
  what it read; an exception of a read or a seek leaves the constructor. The member
  initialisers run in the order of the members. A loop that constructs \<open>n\<close> elements one
  after the other is \<open>read_n\<close>. The vectors are reserved before they are filled, which
  is taken to succeed.
\<close>

primrec read_n :: "nat \<Rightarrow> 'a reader \<Rightarrow> 'a list reader" where
  "read_n 0 r = ret []"
| "read_n (Suc n) r = bnd r (\<lambda>x. bnd (read_n n r) (\<lambda>xs. ret (x # xs)))"

definition Mapping_ctor :: "Mapping reader" where
  "Mapping_ctor =
     bnd read_u64_le (\<lambda>b. bnd read_u64_le (\<lambda>s. bnd read_u64_le (\<lambda>f.
     bnd (seek_stream 8 cur) (\<lambda>_.
     ret \<lparr> Mapping_base = b, Mapping_size = s, Mapping_file_off = f \<rparr>))))"

definition Image_ctor :: "Image reader" where
  "Image_ctor =
     bnd read_u64_le (\<lambda>b. bnd (seek_stream 16 cur) (\<lambda>_. bnd read_u32_le (\<lambda>path_off.
     bnd (seek_stream 4 cur) (\<lambda>_. bnd tellg (\<lambda>prev_pos.
     bnd (seek_stream (uint path_off) beg) (\<lambda>_. bnd read_cstr (\<lambda>p.
     bnd (seek_stream (int prev_pos) beg) (\<lambda>_.
     ret \<lparr> Image_base = b, Image_path = p \<rparr>))))))))"

definition LocalSymbols_ctor :: "LocalSymbols reader" where
  "LocalSymbols_ctor =
     bnd read_u32_le (\<lambda>a. bnd read_u32_le (\<lambda>b.
     ret \<lparr> nlist_start_index = a, nlist_count = b \<rparr>))"

text \<open>\<open>std::unordered_map::emplace\<close> keeps the entry of a key that is present.\<close>

definition entries_emplace ::
  "u64 \<Rightarrow> LocalSymbols \<Rightarrow> (u64 \<times> LocalSymbols) list \<Rightarrow> (u64 \<times> LocalSymbols) list" where
  "entries_emplace k v m = (if k \<in> fst ` set m then m else m @ [(k, v)])"

primrec LocalSymbolsInfo_loop ::
  "nat \<Rightarrow> bool \<Rightarrow> u64 \<Rightarrow> (u64 \<times> LocalSymbols) list \<Rightarrow> (u64 \<times> LocalSymbols) list reader" where
  "LocalSymbolsInfo_loop 0 is_64 base_of_cache acc = ret acc"
| "LocalSymbolsInfo_loop (Suc n) is_64 base_of_cache acc =
     bnd (if is_64 then read_u64_le else bnd read_u32_le (\<lambda>x. ret (ucast x))) (\<lambda>dylib_offset.
     bnd LocalSymbols_ctor (\<lambda>entry.
     LocalSymbolsInfo_loop n is_64 base_of_cache
       (entries_emplace (base_of_cache + dylib_offset) entry acc)))"

definition LocalSymbolsInfo_default :: LocalSymbolsInfo where
  "LocalSymbolsInfo_default = \<lparr> nlist_off = 0, strings_off = 0, entries = [] \<rparr>"

definition LocalSymbolsInfo_ctor :: "int \<Rightarrow> bool \<Rightarrow> u64 \<Rightarrow> LocalSymbolsInfo reader" where
  "LocalSymbolsInfo_ctor local_info_off is_64 base_of_cache =
     (if local_info_off = 0 then ret LocalSymbolsInfo_default
      else
        bnd (seek_stream local_info_off beg) (\<lambda>_. bnd read_u32_le (\<lambda>nl.
        bnd (seek_stream 4 cur) (\<lambda>_. bnd read_u32_le (\<lambda>so.
        bnd (seek_stream 4 cur) (\<lambda>_. bnd read_u32_le (\<lambda>entries_offset.
        bnd read_u32_le (\<lambda>entries_count.
        bnd (seek_stream (local_info_off + uint entries_offset) beg) (\<lambda>_.
        bnd (LocalSymbolsInfo_loop (unat entries_count) is_64 base_of_cache []) (\<lambda>es.
        ret \<lparr> nlist_off = nl, strings_off = so, entries = es \<rparr>))))))))))"

text \<open>
  A subcache entry: 16 bytes skipped, the offset, and the suffix, which is the index plus
  one after a dot in the first version of the directory and 32 bytes of text otherwise.
\<close>

definition Subcache_ctor :: "u32 \<Rightarrow> bool \<Rightarrow> Subcache reader" where
  "Subcache_ctor index is_v1 =
     bnd (seek_stream 16 cur) (\<lambda>_. bnd read_u64_le (\<lambda>v.
     bnd (if is_v1 then ret (''.'' @ to_string (unat (index + 1))) else read_cstrn 32) (\<lambda>s.
     ret \<lparr> vm_off = v, suffix = s \<rparr>)))"

primrec Subcache_loop :: "nat \<Rightarrow> u32 \<Rightarrow> bool \<Rightarrow> Subcache list reader" where
  "Subcache_loop 0 i is_v1 = ret []"
| "Subcache_loop (Suc n) i is_v1 =
     bnd (Subcache_ctor i is_v1) (\<lambda>x. bnd (Subcache_loop n (i + 1) is_v1) (\<lambda>xs. ret (x # xs)))"

text \<open>
  The constructor of the header, in two parts. The first runs for every type of cache:
  the mappings, the base, the UUID of the symbol file and the local symbols; a subcache
  returns after the base. It hands the offset field read at \<open>0x10\<close> to the second part,
  which runs for a main cache only: the image directory and the subcache directory.
\<close>

definition DyldCacheHeader_common :: "Type \<Rightarrow> u64 \<Rightarrow> (u32 \<times> DyldCacheHeader) reader" where
  "DyldCacheHeader_common type main_cache_base =
     bnd (seek_stream 0x10 beg) (\<lambda>_. bnd read_u32_le (\<lambda>mapping_off. bnd read_u32_le (\<lambda>mapping_count.
     bnd (if type \<noteq> Symbols \<and> mapping_off \<noteq> 0 \<and> mapping_count \<noteq> 0
          then bnd (seek_stream (uint mapping_off) beg) (\<lambda>_. read_n (unat mapping_count) Mapping_ctor)
          else ret []) (\<lambda>ms.
     bnd (seek_stream 0xE0 beg) (\<lambda>_. bnd read_u64_le (\<lambda>cb.
     let h0 = \<lparr> mappings = ms, images = [], cache_base = cb, local_symbols_off = 0,
                local_symbols = LocalSymbolsInfo_default, subcaches = [],
                symbol_file_uuid = DyldUUID_default \<rparr>
     in if type = Sub then ret (mapping_off, h0)
        else
          bnd (if type = Symbols then ret (True, DyldUUID_default)
               else if mapping_off \<ge> 0x190
                    then bnd (seek_stream 0x190 beg) (\<lambda>_. bnd DyldUUID_read (\<lambda>u. ret (True, u)))
                    else ret (False, DyldUUID_default)) (\<lambda>(symbol_file_support, uuid).
          bnd (if type = Symbols \<or> DyldUUID_null uuid
               then bnd (seek_stream 0x48 beg) (\<lambda>_. bnd read_u32_le (\<lambda>lso.
                    bnd (LocalSymbolsInfo_ctor (uint lso) symbol_file_support
                           (if main_cache_base = 0 then cb else main_cache_base)) (\<lambda>ls.
                    ret (uint lso, ls))))
               else ret (0, LocalSymbolsInfo_default)) (\<lambda>(lso, ls).
          ret (mapping_off, h0\<lparr> symbol_file_uuid := uuid, local_symbols_off := lso,
                                 local_symbols := ls \<rparr>)))))))))"

definition DyldCacheHeader_main :: "u32 \<Rightarrow> DyldCacheHeader \<Rightarrow> DyldCacheHeader reader" where
  "DyldCacheHeader_main mapping_off h =
     (let split = (mapping_off \<ge> 0x18C)
      in bnd (seek_stream (if split then 0x1C0 else 0x18) beg) (\<lambda>_.
         bnd read_u32_le (\<lambda>image_off. bnd read_u32_le (\<lambda>image_count.
         if split \<and> image_count = 0
         then throw (runtime_error ''main cache expected, but got a subcache'')
         else
           bnd (if image_off \<noteq> 0 \<and> image_count \<noteq> 0
                then bnd (seek_stream (uint image_off) beg) (\<lambda>_. read_n (unat image_count) Image_ctor)
                else ret []) (\<lambda>imgs.
           bnd (if split
                then bnd (seek_stream 0x188 beg) (\<lambda>_.
                     bnd read_u32_le (\<lambda>subcache_off. bnd read_u32_le (\<lambda>subcache_count.
                     if subcache_off \<noteq> 0 \<and> subcache_count \<noteq> 0
                     then bnd (seek_stream (uint subcache_off) beg) (\<lambda>_.
                            Subcache_loop (unat subcache_count) 0 (mapping_off \<le> 0x1C8))
                     else ret [])))
                else ret []) (\<lambda>subs.
           ret (h\<lparr> images := imgs, subcaches := subs \<rparr>)))))))"

text \<open>The constructor on a stream just opened: the header, or the exception.\<close>

definition DyldCacheHeader_ctor :: "u8 list \<Rightarrow> Type \<Rightarrow> u64 \<Rightarrow> error + DyldCacheHeader" where
  "DyldCacheHeader_ctor stream type main_cache_base =
     (case bnd (DyldCacheHeader_common type main_cache_base)
             (\<lambda>(mapping_off, h). if type \<noteq> Main then ret h else DyldCacheHeader_main mapping_off h)
             stream 0 of
        Inl e \<Rightarrow> Inl e
      | Inr (h, pos) \<Rightarrow> Inr h)"

section \<open>analyser.hpp\<close>

subsection \<open>Image matchers\<close>

text \<open>\<open>std::string_view::substr\<close> throws when the start is beyond the end.\<close>

definition substr :: "string \<Rightarrow> nat \<Rightarrow> nat \<Rightarrow> error + string" where
  "substr str pos n =
     (if pos > length str then Inl (out_of_range ''basic_string_view::substr'')
      else Inr (take n (drop pos str)))"

definition substr_eq :: "string \<Rightarrow> nat \<Rightarrow> nat \<Rightarrow> string \<Rightarrow> error + bool" where
  "substr_eq str pos n other =
     (case substr str pos n of Inl e \<Rightarrow> Inl e | Inr s \<Rightarrow> Inr (s = other))"

text \<open>Short-circuit conjunction and disjunction of operands that may throw.\<close>

definition and_also :: "error + bool \<Rightarrow> error + bool \<Rightarrow> error + bool" where
  "and_also a b = (case a of Inl e \<Rightarrow> Inl e | Inr x \<Rightarrow> if x then b else Inr False)"

definition or_else :: "error + bool \<Rightarrow> error + bool \<Rightarrow> error + bool" where
  "or_else a b = (case a of Inl e \<Rightarrow> Inl e | Inr x \<Rightarrow> if x then Inr True else b)"

definition FRAMEWORK_EXT :: string where
  "FRAMEWORK_EXT = ''.framework/''"

definition VERSIONS_A :: string where
  "VERSIONS_A = ''Versions/A/''"

definition matches_with_base_try :: "string \<Rightarrow> string \<Rightarrow> string \<Rightarrow> error + bool" where
  "matches_with_base_try framework_name base_dir str =
     (let name_size = length framework_name;
          base_dir_size = length base_dir;
          name_off = base_dir_size + name_size;
          name_framework_off = name_off + length FRAMEWORK_EXT;
          name_versions_a_off = name_framework_off + length VERSIONS_A
      in and_also (substr_eq str 0 base_dir_size base_dir)
        (and_also (substr_eq str base_dir_size name_size framework_name)
        (and_also (substr_eq str name_off (length FRAMEWORK_EXT) FRAMEWORK_EXT)
        (or_else (substr_eq str name_framework_off name_size framework_name)
          (and_also (substr_eq str name_framework_off (length VERSIONS_A) VERSIONS_A)
                    (substr_eq str name_versions_a_off name_size framework_name))))))"

text \<open>The \<open>catch (std::out_of_range const &)\<close> turns the exception into \<open>false\<close>.\<close>

definition matches_with_base :: "string \<Rightarrow> string \<Rightarrow> string \<Rightarrow> bool" where
  "matches_with_base framework_name base_dir str =
     (case matches_with_base_try framework_name base_dir str of
        Inr b \<Rightarrow> b | Inl e \<Rightarrow> False)"

definition FrameworkMatch_matches :: "string \<Rightarrow> string \<Rightarrow> bool" where
  "FrameworkMatch_matches framework_name str =
     matches_with_base framework_name ''/System/Library/Frameworks/'' str"

definition PrivateFrameworkMatch_matches :: "string \<Rightarrow> string \<Rightarrow> bool" where
  "PrivateFrameworkMatch_matches framework_name str =
     matches_with_base framework_name ''/System/Library/PrivateFrameworks/'' str"

subsection \<open>The analyser and \<open>read_ptr_at\<close>\<close>

record CacheAnalyser =
  caches :: "(path \<times> DyldCacheHeader) list"
  symbols_cache :: "(path \<times> DyldCacheHeader) option"

text \<open>\<open>caches.front()\<close>; the constructor always stores the main cache first.\<close>

definition main_cache :: "CacheAnalyser \<Rightarrow> path \<times> DyldCacheHeader" where
  "main_cache an = hd (caches an)"

text \<open>The overload that reads from an open stream at a file offset.\<close>

definition read_ptr_at :: "CacheAnalyser \<Rightarrow> u64 \<Rightarrow> int \<Rightarrow> u64 reader" where
  "read_ptr_at an image_base off =
     bnd (seek_stream off beg) (\<lambda>_.
     bnd read_u64_le (\<lambda>fixup.
       if bit_test fixup 63 then
         if bit_test fixup 62 then
           throw (runtime_error (''stumbled upon auth_bind pointer ('' @ to_string (unat fixup) @ '')''))
         else if bit_extract fixup 32 19 = 0 then
           throw (runtime_error (''stumbled upon bind pointer ('' @ to_string (unat fixup) @ '')''))
         else
           (let val = bit_extract fixup 0 32
            in ret (if val > image_base then val else val + cache_base (snd (main_cache an))))
       else
         (let val = bit_extract fixup 0 36
          in ret (if val > image_base then val else val + cache_base (snd (main_cache an))))))"


section \<open>patcher.hpp\<close>

text \<open>
  The files the patcher works on: a map from paths to contents, and the log of the
  operations that open, create or remove a file. Opening a file that is not there fails;
  permissions and devices that fill up are not part of the model.
\<close>

datatype fs_op = Exists path | OpenRead path | OpenReadWrite path | OpenTruncate path | Remove path

record filesystem =
  files :: "path \<rightharpoonup> u8 list"
  ops :: "fs_op list"

text \<open>
  \<open>std::map<std::streamoff, std::vector<std::uint8_t>>\<close> is a list of pairs in ascending
  key order; \<open>emplace\<close> inserts only when the key is absent.
  The \<open>std::unordered_map\<close> over paths is a list of pairs with distinct paths; its
  iteration order is unspecified, the list gives one.
\<close>

type_synonym write_map = "(streamoff \<times> u8 list) list"
type_synonym write_queue = "(path \<times> write_map) list"

fun map_emplace :: "streamoff \<Rightarrow> u8 list \<Rightarrow> write_map \<Rightarrow> write_map" where
  "map_emplace k v [] = [(k, v)]"
| "map_emplace k v ((k', v') # rest) =
     (if k <s k' then (k, v) # (k', v') # rest
      else if k = k' then (k', v') # rest
      else (k', v') # map_emplace k v rest)"

fun queue_emplace :: "path \<Rightarrow> streamoff \<Rightarrow> u8 list \<Rightarrow> write_queue \<Rightarrow> write_queue" where
  "queue_emplace p k v [] = [(p, map_emplace k v [])]"
| "queue_emplace p k v ((p', m) # rest) =
     (if p = p' then (p', map_emplace k v m) # rest
      else (p', m) # queue_emplace p k v rest)"

definition ORIG_BYTE_FILE_EXT :: string where
  "ORIG_BYTE_FILE_EXT = ''.InfernoOriginalBytes''"

definition Patcher_write :: "path \<Rightarrow> streamoff \<Rightarrow> u8 list \<Rightarrow> write_queue \<Rightarrow> write_queue" where
  "Patcher_write path file_off bytes write_queue = queue_emplace path file_off bytes write_queue"

text \<open>A sequence of staged writes, from the empty queue of a new patcher.\<close>

fun stage :: "(path \<times> streamoff \<times> u8 list) list \<Rightarrow> write_queue \<Rightarrow> write_queue" where
  "stage [] q = q"
| "stage ((p, k, v) # ws) q = stage ws (Patcher_write p k v q)"

text \<open>
  Writing at a put position of a file stream: the bytes replace what is there and extend
  the file when they run over its end; a position beyond the end leaves a gap of zeros.
  Writing no byte changes nothing.
\<close>

definition write_at :: "u8 list \<Rightarrow> nat \<Rightarrow> u8 list \<Rightarrow> u8 list" where
  "write_at file pos new =
     (if new = [] then file
      else take pos file @ replicate (pos - length file) 0 @ new @ drop (pos + length new) file)"

text \<open>Output of an unsigned value under \<open>std::hex\<close>: lower case, no prefix, no padding.\<close>

fun to_hex :: "nat \<Rightarrow> string" where
  "to_hex n =
     (if n < 16 then [''0123456789abcdef'' ! n]
      else to_hex (n div 16) @ [''0123456789abcdef'' ! (n mod 16)])"

declare to_hex.simps [simp del]

definition text_bytes :: "string \<Rightarrow> u8 list" where
  "text_bytes s = map (\<lambda>c. of_char c) s"

definition bytes_text :: "u8 list \<Rightarrow> string" where
  "bytes_text bs = map (\<lambda>b. char_of (unat b)) bs"

text \<open>
  The loop of \<open>flush\<close> over the entries of one file: the cache file's content and the
  text written to the sidecar so far. An exception leaves both as they are at that point.
\<close>

fun flush_entries :: "write_map \<Rightarrow> u8 list \<Rightarrow> string \<Rightarrow> (u8 list \<times> string) \<times> error option" where
  "flush_entries [] cache_file diff_file = ((cache_file, diff_file), None)"
| "flush_entries ((off, new) # rest) cache_file diff_file =
     (case bnd (seek_stream (sint off) beg) (\<lambda>_. read_stream (length new)) cache_file 0 of
        Inl e \<Rightarrow> ((cache_file, diff_file), Some e)
      | Inr (orig_bytes, _) \<Rightarrow>
          flush_entries rest
            (write_at cache_file (nat (sint off)) new)
            (diff_file @ to_hex (unat off) @ '': ''
               @ concat (map (\<lambda>byte. to_hex (unat byte) @ '' '') orig_bytes) @ [CHR 0x0A]))"

definition flush_file :: "path \<Rightarrow> write_map \<Rightarrow> filesystem \<Rightarrow> filesystem \<times> error option" where
  "flush_file path entries_of_path fs =
     (case files fs path of
        None \<Rightarrow> (fs\<lparr>ops := ops fs @ [OpenReadWrite path]\<rparr>,
                 Some (runtime_error (''failed to open cache file suffix='' @ path)))
      | Some cache_file \<Rightarrow>
          (let orig_bytes_path = path @ ORIG_BYTE_FILE_EXT;
               ((cache_file', diff_file), r) = flush_entries entries_of_path cache_file []
           in (\<lparr>files = (files fs)(path \<mapsto> cache_file', orig_bytes_path \<mapsto> text_bytes diff_file),
                ops = ops fs @ [OpenReadWrite path, OpenTruncate orig_bytes_path]\<rparr>, r)))"

fun flush :: "write_queue \<Rightarrow> filesystem \<Rightarrow> filesystem \<times> error option" where
  "flush [] fs = (fs, None)"
| "flush ((path, entries_of_path) # rest) fs =
     (case flush_file path entries_of_path fs of
        (fs', Some e) \<Rightarrow> (fs', Some e)
      | (fs', None) \<Rightarrow> flush rest fs')"

text \<open>
  \<open>std::stoll\<close> and \<open>std::stoi\<close> in base 16, after \<open>strtol\<close>: leading white space,
  an optional sign, an optional \<open>0x\<close> (taken only when a hexadecimal digit follows),
  then the longest run of hexadecimal digits; what follows is ignored. No digit is
  \<open>std::invalid_argument\<close>, a value outside the result type is \<open>std::out_of_range\<close>.
\<close>

definition isspace :: "char \<Rightarrow> bool" where
  "isspace c = (let n = (of_char c :: nat) in n = 32 \<or> (9 \<le> n \<and> n \<le> 13))"

definition hex_val :: "char \<Rightarrow> nat option" where
  "hex_val c =
     (let n = (of_char c :: nat)
      in if 48 \<le> n \<and> n \<le> 57 then Some (n - 48)
         else if 97 \<le> n \<and> n \<le> 102 then Some (n - 87)
         else if 65 \<le> n \<and> n \<le> 70 then Some (n - 55)
         else None)"

fun hex_run :: "string \<Rightarrow> nat list" where
  "hex_run [] = []"
| "hex_run (c # cs) = (case hex_val c of None \<Rightarrow> [] | Some d \<Rightarrow> d # hex_run cs)"

definition skip_0x :: "string \<Rightarrow> string" where
  "skip_0x s =
     (case s of
        c0 # c1 # c2 # rest \<Rightarrow>
          if c0 = CHR ''0'' \<and> (c1 = CHR ''x'' \<or> c1 = CHR ''X'') \<and> hex_val c2 \<noteq> None
          then c2 # rest else s
      | _ \<Rightarrow> s)"

definition strtol16 :: "string \<Rightarrow> int option" where
  "strtol16 str =
     (let s1 = dropWhile isspace str;
          neg = (case s1 of c # _ \<Rightarrow> c = CHR ''-'' | [] \<Rightarrow> False);
          s2 = (case s1 of c # rest \<Rightarrow> if c = CHR ''-'' \<or> c = CHR ''+'' then rest else s1 | [] \<Rightarrow> s1);
          ds = hex_run (skip_0x s2)
      in if ds = [] then None
         else Some ((if neg then - 1 else 1) * int (foldl (\<lambda>a d. a * 16 + d) 0 ds)))"

definition stoll16 :: "string \<Rightarrow> error + int" where
  "stoll16 str =
     (case strtol16 str of
        None \<Rightarrow> Inl (invalid_argument ''stoll'')
      | Some v \<Rightarrow> if v < - (2 ^ 63) \<or> v > 2 ^ 63 - 1 then Inl (out_of_range ''stoll'') else Inr v)"

definition stoi16 :: "string \<Rightarrow> error + int" where
  "stoi16 str =
     (case strtol16 str of
        None \<Rightarrow> Inl (invalid_argument ''stoi'')
      | Some v \<Rightarrow> if v < - (2 ^ 31) \<or> v > 2 ^ 31 - 1 then Inl (out_of_range ''stoi'') else Inr v)"

text \<open>\<open>orig_bytes_file >> line\<close>, repeated to the end of the file: the white-space separated words.\<close>

fun tokens_from :: "string \<Rightarrow> string \<Rightarrow> string list" where
  "tokens_from acc [] = (if acc = [] then [] else [acc])"
| "tokens_from acc (c # cs) =
     (if isspace c then (if acc = [] then tokens_from [] cs else acc # tokens_from [] cs)
      else tokens_from (acc @ [c]) cs)"

definition tokens :: "string \<Rightarrow> string list" where
  "tokens s = tokens_from [] s"

text \<open>The loop of \<open>revert\<close>: the file's content and the put position.\<close>

fun revert_loop :: "string list \<Rightarrow> u8 list \<Rightarrow> nat \<Rightarrow> u8 list \<times> error option" where
  "revert_loop [] file pos = (file, None)"
| "revert_loop (line # rest) file pos =
     (if last line = CHR '':'' then
        (case stoll16 (butlast line) of
           Inl e \<Rightarrow> (file, Some e)
         | Inr off \<Rightarrow>
             if off < 0 then (file, Some (runtime_error ''failed to seek to offset (malformed revert file?)''))
             else revert_loop rest file (nat off))
      else
        (case stoi16 line of
           Inl e \<Rightarrow> (file, Some e)
         | Inr val \<Rightarrow>
             (let byte = (word_of_int (val AND 0xFF) :: u8)
              in if uint byte \<noteq> val then (file, Some (runtime_error ''malformed revert file; byte too large''))
                 else revert_loop rest (write_at file pos [byte]) (pos + 1))))"

definition revert :: "path \<Rightarrow> filesystem \<Rightarrow> filesystem \<times> error option" where
  "revert path fs =
     (let orig_bytes_path = path @ ORIG_BYTE_FILE_EXT
      in case files fs orig_bytes_path of
           None \<Rightarrow> (fs\<lparr>ops := ops fs @ [Exists orig_bytes_path]\<rparr>, None)
         | Some orig_bytes_file \<Rightarrow>
             (case files fs path of
                None \<Rightarrow> (fs\<lparr>ops := ops fs @ [Exists orig_bytes_path, OpenRead orig_bytes_path,
                                             OpenReadWrite path]\<rparr>,
                         Some (runtime_error (''failed to open file at `'' @ path @ ''`'')))
              | Some file \<Rightarrow>
                  (case revert_loop (tokens (bytes_text orig_bytes_file)) file 0 of
                     (file', Some e) \<Rightarrow>
                       (\<lparr>files = (files fs)(path \<mapsto> file'),
                         ops = ops fs @ [Exists orig_bytes_path, OpenRead orig_bytes_path,
                                         OpenReadWrite path]\<rparr>, Some e)
                   | (file', None) \<Rightarrow>
                       (\<lparr>files = ((files fs)(path \<mapsto> file'))(orig_bytes_path := None),
                         ops = ops fs @ [Exists orig_bytes_path, OpenRead orig_bytes_path,
                                         OpenReadWrite path, Remove orig_bytes_path]\<rparr>, None))))"

section \<open>assembler.hpp\<close>

datatype GPReg = R0 | R1 | R2 | R3 | R4 | R5 | R6 | R7 | R8 | R9 | R10 | R11 | R12 | R13 | R14 | R15

text \<open>The value of the enumerator, as \<open>INST(reg)\<close> converts it.\<close>

fun INST_of_GPReg :: "GPReg \<Rightarrow> u32" where
  "INST_of_GPReg R0 = 0" | "INST_of_GPReg R1 = 1" | "INST_of_GPReg R2 = 2" | "INST_of_GPReg R3 = 3"
| "INST_of_GPReg R4 = 4" | "INST_of_GPReg R5 = 5" | "INST_of_GPReg R6 = 6" | "INST_of_GPReg R7 = 7"
| "INST_of_GPReg R8 = 8" | "INST_of_GPReg R9 = 9" | "INST_of_GPReg R10 = 10" | "INST_of_GPReg R11 = 11"
| "INST_of_GPReg R12 = 12" | "INST_of_GPReg R13 = 13" | "INST_of_GPReg R14 = 14" | "INST_of_GPReg R15 = 15"

datatype MOVZShift = MOVZShift_0 | MOVZShift_16 | MOVZShift_32 | MOVZShift_48

fun INST_of_MOVZShift :: "MOVZShift \<Rightarrow> u32" where
  "INST_of_MOVZShift MOVZShift_0 = 0" | "INST_of_MOVZShift MOVZShift_16 = 1"
| "INST_of_MOVZShift MOVZShift_32 = 2" | "INST_of_MOVZShift MOVZShift_48 = 3"



definition INST_of_bool :: "bool \<Rightarrow> u32" where
  "INST_of_bool b = (if b then 1 else 0)"

definition INST_NUM_BYTES :: nat where "INST_NUM_BYTES = 4"


definition NOP_INST :: u32 where "NOP_INST = 0xD503201F"
definition RET_INST :: u32 where "RET_INST = 0xD65F03C0"
definition MOVZ_INST :: u32 where "MOVZ_INST = 0x52800000"
definition BL_INST :: u32 where "BL_INST = 0x94000000"
definition BL_INST_MASK :: u32 where "BL_INST_MASK = 0xFC000000"
definition CBZ_INST :: u32 where "CBZ_INST = 0x34000000"
definition CBZ_INST_MASK :: u32 where "CBZ_INST_MASK = 0x7F000000"
definition BLRA_INST :: u32 where "BLRA_INST = 0xD63F0800"
definition BLRA_INST_MASK :: u32 where "BLRA_INST_MASK = 0xFEFFF800"
definition BLR_INST :: u32 where "BLR_INST = 0xD63F0000"



definition make_movz :: "GPReg \<Rightarrow> bool \<Rightarrow> u16 \<Rightarrow> MOVZShift \<Rightarrow> error + u32" where
  "make_movz reg wide imm shift =
     (if wide \<and> shift \<noteq> MOVZShift_0 then Inl (invalid_argument ''cannot have a shift for wide movz'')
      else Inr (push_bit 31 (INST_of_bool wide) OR MOVZ_INST OR push_bit 21 (INST_of_MOVZShift shift)
                OR push_bit 5 (ucast imm) OR INST_of_GPReg reg))"

definition make_nop :: u32 where "make_nop = NOP_INST"
definition make_ret :: u32 where "make_ret = RET_INST"

text \<open>
  \<open>disas_bl\<close>: the 26-bit immediate, sign-extended from bit 25 in 32 bits, times four in
  \<open>int32_t\<close>, added to or subtracted from the instruction address.
\<close>

definition disas_bl :: "u64 \<Rightarrow> u32 \<Rightarrow> u64" where
  "disas_bl inst_addr inst =
     (let imm = sign_extend (bit_extract inst 0 26) 25 * 4
      in if imm <s 0 then inst_addr - ucast (- imm) else inst_addr + ucast imm)"





definition make_blr :: "GPReg \<Rightarrow> u32" where
  "make_blr reg = (BLR_INST OR push_bit 5 (INST_of_GPReg reg))"

text \<open>
  \<open>find_bl\<close>: the loop over at most \<open>inst_limit\<close> candidates, with the stream position.
  A reverse scan steps back over the word just read and the one before it, and does so
  before it looks at the word.
\<close>

function find_bl_loop ::
  "u8 list \<Rightarrow> u64 \<Rightarrow> u64 \<Rightarrow> bool \<Rightarrow> u32 \<Rightarrow> nat \<Rightarrow> nat \<Rightarrow> error + u64" where
  "find_bl_loop stream start_addr target_addr reverse inst_limit i pos =
     (if i < unat inst_limit then
        (let inst_addr = (if reverse then start_addr - of_nat i * 4 else start_addr + of_nat i * 4)
         in case read_u32_le stream pos of
              Inl e \<Rightarrow> Inl e
            | Inr (inst, pos1) \<Rightarrow>
                (case (if reverse then seek_stream (- 8) cur stream pos1 else Inr ((), pos1)) of
                   Inl e \<Rightarrow> Inl e
                 | Inr (_, pos2) \<Rightarrow>
                     if inst AND BL_INST_MASK = BL_INST \<and>
                        (target_addr = - 1 \<or> disas_bl inst_addr inst = target_addr)
                     then Inr inst_addr
                     else find_bl_loop stream start_addr target_addr reverse inst_limit (Suc i) pos2))
      else Inl (out_of_range (''no bl instruction found start_addr='' @ to_string (unat start_addr)
                  @ '' target_addr='' @ to_string (unat target_addr))))"
  by pat_completeness auto
termination
  by (relation "measure (\<lambda>(stream, start_addr, target_addr, reverse, inst_limit, i, pos). unat inst_limit - i)")
     auto

declare find_bl_loop.simps [simp del]

definition find_bl ::
  "u8 list \<Rightarrow> DyldCacheHeader \<Rightarrow> u64 \<Rightarrow> u64 \<Rightarrow> bool \<Rightarrow> u32 \<Rightarrow> error + u64" where
  "find_bl stream header start_addr target_addr reverse inst_limit =
     (case vm_addr_to_file_off header start_addr of
        Inl e \<Rightarrow> Inl e
      | Inr base \<Rightarrow>
          (case seek_stream (sint base) beg stream 0 of
             Inl e \<Rightarrow> Inl e
           | Inr (_, pos) \<Rightarrow> find_bl_loop stream start_addr target_addr reverse inst_limit 0 pos))"

definition find_bl_incr ::
  "u8 list \<Rightarrow> DyldCacheHeader \<Rightarrow> u64 \<Rightarrow> u64 \<Rightarrow> bool \<Rightarrow> u32 \<Rightarrow> error + u64" where
  "find_bl_incr stream header start_addr target_addr reverse inst_limit =
     (case find_bl stream header start_addr target_addr reverse inst_limit of
        Inl e \<Rightarrow> Inl e | Inr a \<Rightarrow> Inr (a + 4))"


section \<open>ARM64 reference semantics of the two instructions of the address pair\<close>








text \<open>The four bytes of an instruction in the file, read back as a little-endian word.\<close>

definition le32 :: "u8 list \<Rightarrow> u32" where
  "le32 b = (ucast (b ! 0) OR push_bit 8 (ucast (b ! 1)) OR push_bit 16 (ucast (b ! 2))
             OR push_bit 24 (ucast (b ! 3)))"

section \<open>Example data\<close>

definition example_header :: DyldCacheHeader where
  "example_header =
     \<lparr> mappings = [\<lparr> Mapping_base = 0x180000000, Mapping_size = 0x1000, Mapping_file_off = 0 \<rparr>],
       images = [], cache_base = 0x180000000, local_symbols_off = 0,
       local_symbols = \<lparr> nlist_off = 0, strings_off = 0, entries = [] \<rparr>,
       subcaches = [], symbol_file_uuid = DyldUUID_default \<rparr>"

definition example_analyser :: CacheAnalyser where
  "example_analyser = \<lparr> caches = [(''cache'', example_header)], symbols_cache = None \<rparr>"

text \<open>Scenario S5 of the specification: a 16-byte file of 0xAA and one staged write.\<close>

definition s5_fs :: filesystem where
  "s5_fs = \<lparr> files = [''cache'' \<mapsto> replicate 16 0xAA], ops = [] \<rparr>"

definition s5_queue :: write_queue where
  "s5_queue = Patcher_write ''cache'' 4 [0x1F, 0x20, 0x03, 0xD5] []"

definition s5_patched :: "u8 list" where
  "s5_patched = [0xAA, 0xAA, 0xAA, 0xAA, 0x1F, 0x20, 0x03, 0xD5,
                 0xAA, 0xAA, 0xAA, 0xAA, 0xAA, 0xAA, 0xAA, 0xAA]"

section \<open>Vocabulary of the round-trip property\<close>

text \<open>
  Two staged writes are apart when their byte ranges do not meet; a write map is made of
  disjoint writes when its entries are pairwise apart.
\<close>

definition apart :: "streamoff \<times> u8 list \<Rightarrow> streamoff \<times> u8 list \<Rightarrow> bool" where
  "apart a b =
     (sint (fst a) + int (length (snd a)) \<le> sint (fst b) \<or>
      sint (fst b) + int (length (snd b)) \<le> sint (fst a))"

fun disjoint_writes :: "write_map \<Rightarrow> bool" where
  "disjoint_writes [] = True"
| "disjoint_writes (e # es) = (list_all (apart e) es \<and> disjoint_writes es)"

text \<open>
  No staged path is the sidecar of the file \<open>C\<close>, and \<open>C\<close> is the sidecar of no
  staged path.
\<close>

definition no_sidecar_clash :: "path \<Rightarrow> write_queue \<Rightarrow> bool" where
  "no_sidecar_clash C q =
     list_all (\<lambda>p. p \<noteq> C @ ORIG_BYTE_FILE_EXT \<and> C \<noteq> p @ ORIG_BYTE_FILE_EXT) (map fst q)"

text \<open>
  For the proofs: whether a write lies inside a file (a write of no byte lies inside it at
  any offset) and covers an index, the bytes it displaces there, the sidecar line of a
  record and its words, and the replay of records.
\<close>

definition in_file :: "u8 list \<Rightarrow> streamoff \<times> u8 list \<Rightarrow> bool" where
  "in_file file e =
     (0 \<le> sint (fst e) \<and> (snd e = [] \<or> nat (sint (fst e)) + length (snd e) \<le> length file))"

definition covers :: "streamoff \<times> u8 list \<Rightarrow> nat \<Rightarrow> bool" where
  "covers e i = (nat (sint (fst e)) \<le> i \<and> i < nat (sint (fst e)) + length (snd e))"

definition original_bytes :: "u8 list \<Rightarrow> streamoff \<times> u8 list \<Rightarrow> streamoff \<times> u8 list" where
  "original_bytes file e = (fst e, take (length (snd e)) (drop (nat (sint (fst e))) file))"

definition sidecar_line :: "streamoff \<times> u8 list \<Rightarrow> string" where
  "sidecar_line r =
     to_hex (unat (fst r)) @ '': '' @ concat (map (\<lambda>byte. to_hex (unat byte) @ '' '') (snd r))
       @ [CHR 0x0A]"

definition line_tokens :: "streamoff \<times> u8 list \<Rightarrow> string list" where
  "line_tokens r = (to_hex (unat (fst r)) @ '':'') # map (\<lambda>byte. to_hex (unat byte)) (snd r)"

fun restore :: "(streamoff \<times> u8 list) list \<Rightarrow> u8 list \<Rightarrow> u8 list" where
  "restore [] g = g"
| "restore (r # rs) g = restore rs (write_at g (nat (sint (fst r))) (snd r))"

text \<open>Two files and three staged writes, two of them on the first file, with disjoint ranges.\<close>

definition two_files :: filesystem where
  "two_files = \<lparr> files = [''cache'' \<mapsto> [0, 1, 2, 3, 4, 5, 6, 7], ''cache.01'' \<mapsto> [7, 7]], ops = [] \<rparr>"

definition disjoint_staged :: "(path \<times> streamoff \<times> u8 list) list" where
  "disjoint_staged = [(''cache'', 4, [0x1F, 0x20, 0x03, 0xD5]), (''cache.01'', 1, [9]), (''cache'', 0, [0xC0, 0x03])]"

text \<open>One file and two staged writes whose ranges overlap in the bytes 2 and 3.\<close>

definition one_file :: filesystem where
  "one_file = \<lparr> files = [''cache'' \<mapsto> [0, 1, 2, 3, 4, 5]], ops = [] \<rparr>"

definition overlapping_staged :: "(path \<times> streamoff \<times> u8 list) list" where
  "overlapping_staged = [(''cache'', 0, [0x10, 0x11, 0x12, 0x13]), (''cache'', 2, [0x20, 0x21, 0x22, 0x23])]"

section \<open>Vocabulary of the address pair\<close>



section \<open>Vocabulary of the scan for a BL\<close>

text \<open>
  The scan of \<open>find_bl\<close> starts at the file offset of the start address and looks at one
  word per step, four bytes further on or, in a reverse scan, four bytes further back.
  The \<open>i\<close>-th word is scanned when it lies inside the stream and, in a reverse scan, at
  least four bytes into it: the scan steps back over two words after each read, before it
  looks at the word. The first BL is at index \<open>k\<close> when the words before it are scanned
  and do not match the BL mask, and the \<open>k\<close>-th is scanned and matches it.
\<close>

definition bl_scan_pos :: "nat \<Rightarrow> bool \<Rightarrow> nat \<Rightarrow> int" where
  "bl_scan_pos base reverse i = (if reverse then int base - 4 * int i else int base + 4 * int i)"

definition bl_scanned :: "u8 list \<Rightarrow> nat \<Rightarrow> bool \<Rightarrow> nat \<Rightarrow> u32 option" where
  "bl_scanned stream base reverse i =
     (let p = bl_scan_pos base reverse i
      in if 0 \<le> p \<and> nat p + 4 \<le> length stream \<and> (reverse \<longrightarrow> 4 \<le> p)
         then Some (le32 (take 4 (drop (nat p) stream))) else None)"

definition bl_inst_addr :: "u64 \<Rightarrow> bool \<Rightarrow> nat \<Rightarrow> u64" where
  "bl_inst_addr start_addr reverse i =
     (if reverse then start_addr - of_nat i * 4 else start_addr + of_nat i * 4)"

definition bl_first_at :: "u8 list \<Rightarrow> nat \<Rightarrow> bool \<Rightarrow> nat \<Rightarrow> bool" where
  "bl_first_at stream base reverse k =
     (list_all (\<lambda>j. case bl_scanned stream base reverse j of
                       None \<Rightarrow> False | Some w \<Rightarrow> w AND BL_INST_MASK \<noteq> BL_INST) [0..<k] \<and>
      (case bl_scanned stream base reverse k of
         None \<Rightarrow> False | Some w \<Rightarrow> w AND BL_INST_MASK = BL_INST))"

text \<open>
  A stream of four instructions mapped at the address 3: a NOP, a BL to 15, a BL to
  \<open>2 ^ 64 - 1\<close> and a BL to 3.
\<close>

definition bl_header :: DyldCacheHeader where
  "bl_header =
     \<lparr> mappings = [\<lparr> Mapping_base = 3, Mapping_size = 0x1000, Mapping_file_off = 0 \<rparr>],
       images = [], cache_base = 3, local_symbols_off = 0,
       local_symbols = \<lparr> nlist_off = 0, strings_off = 0, entries = [] \<rparr>,
       subcaches = [], symbol_file_uuid = DyldUUID_default \<rparr>"

definition bl_stream :: "u8 list" where
  "bl_stream = [0x1F, 0x20, 0x03, 0xD5,  0x02, 0x00, 0x00, 0x94,
                0xFD, 0xFF, 0xFF, 0x97,  0xFD, 0xFF, 0xFF, 0x97]"

section \<open>Vocabulary of the header layout\<close>

text \<open>
  The 32-bit little-endian word of a stream at an offset, and the offset of the image
  directory, which depends on the offset field of the header.
\<close>

definition u32_at :: "u8 list \<Rightarrow> nat \<Rightarrow> u32" where
  "u32_at stream p = le32 (take 4 (drop p stream))"

definition image_dir :: "u32 \<Rightarrow> nat" where
  "image_dir mapping_off = (if 0x18C \<le> mapping_off then 0x1C0 else 0x18)"

text \<open>
  Two headers with no mapping and an empty image directory. The first has the offset
  field \<open>0x180\<close>, the second \<open>0x1D0\<close> and a UUID at \<open>0x190\<close>; both have the base
  \<open>0x180000000\<close> at \<open>0xE0\<close>.
\<close>

definition legacy_empty_stream :: "u8 list" where
  "legacy_empty_stream =
     replicate 0x10 0 @ [0x80, 0x01, 0, 0] @ replicate 0xCC 0 @ [0, 0, 0, 0x80, 1, 0, 0, 0]"

definition split_empty_stream :: "u8 list" where
  "split_empty_stream =
     replicate 0x10 0 @ [0xD0, 0x01, 0, 0] @ replicate 0xCC 0 @ [0, 0, 0, 0x80, 1, 0, 0, 0]
     @ replicate 0xA8 0 @ [1, 2, 3, 4, 5, 6, 7, 8, 9, 10, 11, 12, 13, 14, 15, 16] @ replicate 0x28 0"

definition empty_header :: DyldCacheHeader where
  "empty_header =
     \<lparr> mappings = [], images = [], cache_base = 0x180000000, local_symbols_off = 0,
       local_symbols = LocalSymbolsInfo_default, subcaches = [],
       symbol_file_uuid = DyldUUID_default \<rparr>"

section \<open>The header as the layout describes it\<close>

text \<open>
  What a header holds, read off the bytes of the file by offset. A 64-bit little-endian
  word; a text up to the first NUL, or up to the first NUL within \<open>n\<close> bytes. An image
  entry is 32 bytes, with the base at 0 and the offset of the path at 24; the image
  directory at \<open>dir\<close> is the offset of the first entry and the number of entries. A
  subcache entry holds its offset at 16; in the numbered version of the directory it is
  24 bytes and the suffix is a dot and the index plus one, otherwise it is 56 bytes and
  the suffix is the text in the 32 bytes at 24.
\<close>

definition le64 :: "u8 list \<Rightarrow> u64" where
  "le64 b = (ucast (b ! 0) OR push_bit 8 (ucast (b ! 1)) OR push_bit 16 (ucast (b ! 2))
             OR push_bit 24 (ucast (b ! 3)) OR push_bit 32 (ucast (b ! 4))
             OR push_bit 40 (ucast (b ! 5)) OR push_bit 48 (ucast (b ! 6))
             OR push_bit 56 (ucast (b ! 7)))"

definition u64_at :: "u8 list \<Rightarrow> nat \<Rightarrow> u64" where
  "u64_at stream p = le64 (take 8 (drop p stream))"

definition text_of :: "u8 list \<Rightarrow> string" where
  "text_of bs = map (\<lambda>b. char_of (unat b)) bs"

definition cstr_at :: "u8 list \<Rightarrow> nat \<Rightarrow> string" where
  "cstr_at stream p = text_of (takeWhile (\<lambda>b. b \<noteq> 0) (drop p stream))"

definition cstrn_at :: "u8 list \<Rightarrow> nat \<Rightarrow> nat \<Rightarrow> string" where
  "cstrn_at stream p n = text_of (takeWhile (\<lambda>b. b \<noteq> 0) (take n (drop p stream)))"

definition image_at :: "u8 list \<Rightarrow> nat \<Rightarrow> Image" where
  "image_at stream p =
     \<lparr> Image_base = u64_at stream p, Image_path = cstr_at stream (unat (u32_at stream (p + 24))) \<rparr>"

definition images_at :: "u8 list \<Rightarrow> nat \<Rightarrow> Image list" where
  "images_at stream dir =
     (let off = unat (u32_at stream dir); n = unat (u32_at stream (dir + 4))
      in if off \<noteq> 0 \<and> n \<noteq> 0 then map (\<lambda>i. image_at stream (off + 32 * i)) [0..<n] else [])"

definition subcache_at :: "u8 list \<Rightarrow> bool \<Rightarrow> nat \<Rightarrow> nat \<Rightarrow> Subcache" where
  "subcache_at stream numbered off i =
     (if numbered
      then \<lparr> vm_off = u64_at stream (off + 24 * i + 16), suffix = ''.'' @ to_string (i + 1) \<rparr>
      else \<lparr> vm_off = u64_at stream (off + 56 * i + 16),
             suffix = cstrn_at stream (off + 56 * i + 24) 32 \<rparr>)"

definition subcaches_at :: "u8 list \<Rightarrow> nat \<Rightarrow> bool \<Rightarrow> Subcache list" where
  "subcaches_at stream dir numbered =
     (let off = unat (u32_at stream dir); n = unat (u32_at stream (dir + 4))
      in if off \<noteq> 0 \<and> n \<noteq> 0 then map (subcache_at stream numbered off) [0..<n] else [])"

text \<open>
  Three main headers with one mapping and one image, \<open>/a.dylib\<close>. The first has the
  offset field \<open>0x180\<close>: its mapping lies over the offsets \<open>0x188\<close> and \<open>0x190\<close>, and the
  path of its image at \<open>0x1C0\<close>. The second has the offset field \<open>0x1D0\<close>, a UUID, one
  subcache with the suffix \<open>.01\<close> and other numbers at \<open>0x18\<close>. The third has the offset
  field \<open>0x1C8\<close>, the same UUID and two subcaches.
\<close>

definition legacy_stream :: "u8 list" where
  "legacy_stream =
     replicate 0x10 0 @
     [0x80, 0x01, 0x00, 0x00] @
     [0x01, 0x00, 0x00, 0x00] @
     [0xA0, 0x01, 0x00, 0x00] @
     [0x01, 0x00, 0x00, 0x00] @
     replicate 0xC0 0 @
     [0x00, 0x00, 0x00, 0x80, 0x01, 0x00, 0x00, 0x00] @
     replicate 0x98 0 @
     [0x00, 0x00, 0x00, 0x80, 0x01, 0x00, 0x00, 0x00] @
     [0x00, 0x10, 0x00, 0x00, 0x02, 0x00, 0x00, 0x00] @
     [0x00, 0x40, 0x00, 0x00, 0x00, 0x00, 0x00, 0x00] @
     replicate 0x8 0 @
     [0x00, 0x40, 0x00, 0x80, 0x01, 0x00, 0x00, 0x00] @
     replicate 0x10 0 @
     [0xC0, 0x01, 0x00, 0x00] @
     replicate 0x4 0 @
     [0x2F, 0x61, 0x2E, 0x64, 0x79, 0x6C, 0x69, 0x62, 0x00]"

definition split_stream :: "u8 list" where
  "split_stream =
     replicate 0x10 0 @
     [0xD0, 0x01, 0x00, 0x00] @
     [0x01, 0x00, 0x00, 0x00] @
     [0x48, 0x02, 0x00, 0x00] @
     [0x03, 0x00, 0x00, 0x00] @
     replicate 0xC0 0 @
     [0x00, 0x00, 0x00, 0x80, 0x01, 0x00, 0x00, 0x00] @
     replicate 0xA0 0 @
     [0x10, 0x02, 0x00, 0x00] @
     [0x01, 0x00, 0x00, 0x00] @
     [0x11, 0x22, 0x33, 0x44, 0x55, 0x66, 0x77, 0x88, 0x99, 0xAA, 0xBB, 0xCC, 0xDD, 0xEE, 0xFF, 0x0F] @
     replicate 0x20 0 @
     [0xF0, 0x01, 0x00, 0x00] @
     [0x01, 0x00, 0x00, 0x00] @
     replicate 0x8 0 @
     [0x00, 0x00, 0x00, 0x80, 0x01, 0x00, 0x00, 0x00] @
     [0x00, 0x10, 0x00, 0x00, 0x00, 0x00, 0x00, 0x00] @
     [0x00, 0x00, 0x00, 0x00, 0x00, 0x00, 0x00, 0x00] @
     replicate 0x8 0 @
     [0x00, 0x40, 0x00, 0x80, 0x01, 0x00, 0x00, 0x00] @
     replicate 0x10 0 @
     [0x48, 0x02, 0x00, 0x00] @
     replicate 0x4 0 @
     [0xAA, 0xAA, 0xAA, 0xAA, 0xAA, 0xAA, 0xAA, 0xAA, 0xAA, 0xAA, 0xAA, 0xAA, 0xAA, 0xAA, 0xAA, 0xAA] @
     [0x00, 0x00, 0x00, 0x04, 0x00, 0x00, 0x00, 0x00] @
     [0x2E, 0x30, 0x31] @
     replicate 0x1D 0 @
     [0x2F, 0x61, 0x2E, 0x64, 0x79, 0x6C, 0x69, 0x62, 0x00]"

definition numbered_stream :: "u8 list" where
  "numbered_stream =
     replicate 0x10 0 @
     [0xC8, 0x01, 0x00, 0x00] @
     [0x01, 0x00, 0x00, 0x00] @
     replicate 0x8 0 @
     replicate 0xC0 0 @
     [0x00, 0x00, 0x00, 0x80, 0x01, 0x00, 0x00, 0x00] @
     replicate 0xA0 0 @
     [0x10, 0x02, 0x00, 0x00] @
     [0x02, 0x00, 0x00, 0x00] @
     [0x11, 0x22, 0x33, 0x44, 0x55, 0x66, 0x77, 0x88, 0x99, 0xAA, 0xBB, 0xCC, 0xDD, 0xEE, 0xFF, 0x0F] @
     replicate 0x20 0 @
     [0xF0, 0x01, 0x00, 0x00] @
     [0x01, 0x00, 0x00, 0x00] @
     [0x00, 0x00, 0x00, 0x80, 0x01, 0x00, 0x00, 0x00] @
     [0x00, 0x10, 0x00, 0x00, 0x00, 0x00, 0x00, 0x00] @
     [0x00, 0x00, 0x00, 0x00, 0x00, 0x00, 0x00, 0x00] @
     replicate 0x8 0 @
     replicate 0x8 0 @
     [0x00, 0x40, 0x00, 0x80, 0x01, 0x00, 0x00, 0x00] @
     replicate 0x10 0 @
     [0x48, 0x02, 0x00, 0x00] @
     replicate 0x4 0 @
     [0xAA, 0xAA, 0xAA, 0xAA, 0xAA, 0xAA, 0xAA, 0xAA, 0xAA, 0xAA, 0xAA, 0xAA, 0xAA, 0xAA, 0xAA, 0xAA] @
     [0x00, 0x00, 0x00, 0x04, 0x00, 0x00, 0x00, 0x00] @
     [0xBB, 0xBB, 0xBB, 0xBB, 0xBB, 0xBB, 0xBB, 0xBB, 0xBB, 0xBB, 0xBB, 0xBB, 0xBB, 0xBB, 0xBB, 0xBB] @
     [0x00, 0x00, 0x00, 0x08, 0x00, 0x00, 0x00, 0x00] @
     replicate 0x8 0 @
     [0x2F, 0x61, 0x2E, 0x64, 0x79, 0x6C, 0x69, 0x62, 0x00]"

definition legacy_header :: DyldCacheHeader where
  "legacy_header =
     \<lparr> mappings = [\<lparr> Mapping_base = 0x180000000, Mapping_size = 0x200001000, Mapping_file_off = 0x4000 \<rparr>],
       images = [\<lparr> Image_base = 0x180004000, Image_path = ''/a.dylib'' \<rparr>],
       cache_base = 0x180000000, local_symbols_off = 0, local_symbols = LocalSymbolsInfo_default,
       subcaches = [], symbol_file_uuid = DyldUUID_default \<rparr>"

definition split_header :: DyldCacheHeader where
  "split_header =
     \<lparr> mappings = [\<lparr> Mapping_base = 0x180000000, Mapping_size = 0x1000, Mapping_file_off = 0 \<rparr>],
       images = [\<lparr> Image_base = 0x180004000, Image_path = ''/a.dylib'' \<rparr>],
       cache_base = 0x180000000, local_symbols_off = 0, local_symbols = LocalSymbolsInfo_default,
       subcaches = [\<lparr> vm_off = 0x4000000, suffix = ''.01'' \<rparr>],
       symbol_file_uuid = [0x11, 0x22, 0x33, 0x44, 0x55, 0x66, 0x77, 0x88, 0x99, 0xAA, 0xBB, 0xCC, 0xDD, 0xEE, 0xFF, 0x0F] \<rparr>"

definition numbered_header :: DyldCacheHeader where
  "numbered_header =
     \<lparr> mappings = [\<lparr> Mapping_base = 0x180000000, Mapping_size = 0x1000, Mapping_file_off = 0 \<rparr>],
       images = [\<lparr> Image_base = 0x180004000, Image_path = ''/a.dylib'' \<rparr>],
       cache_base = 0x180000000, local_symbols_off = 0, local_symbols = LocalSymbolsInfo_default,
       subcaches = [\<lparr> vm_off = 0x4000000, suffix = ''.1'' \<rparr>, \<lparr> vm_off = 0x8000000, suffix = ''.2'' \<rparr>],
       symbol_file_uuid = [0x11, 0x22, 0x33, 0x44, 0x55, 0x66, 0x77, 0x88, 0x99, 0xAA, 0xBB, 0xCC, 0xDD, 0xEE, 0xFF, 0x0F] \<rparr>"

section \<open>Verification\<close>

subsection \<open>Bit helpers\<close>

lemma make_bit_mask_eq: "(make_bit_mask start len :: 'a::len word) = push_bit start (mask len)"
  by (simp add: make_bit_mask_def mask_eq_exp_minus_1 push_bit_eq_mult)

lemma bit_test_eq: "bit_test (w :: 'a::len word) i = bit w i"
  unfolding bit_test_def make_bit_mask_eq
  by (simp add: push_bit_eq_mult and_exp_eq_0_iff_not_bit)

lemma bit_extract_eq:
  "bit_extract (w :: 'a::len word) start len = take_bit len (drop_bit start w)"
  unfolding bit_extract_def make_bit_mask_eq
  by (rule bit_eqI) (auto simp add: bit_simps dest: bit_imp_le_length)

subsection \<open>Fixup words\<close>

text \<open>
  C2. \<open>read_ptr_at\<close> on a fixup word \<open>w\<close> read at the offset, with image base \<open>B\<close>:
  bit 63 clear gives bits [0..36); bits 63 and 62 set raises (authenticated bind); bit 63
  set, bit 62 clear and bits [32..51) zero raises (plain bind); otherwise bits [0..32).
  A value \<open>V\<close> that is returned comes back as \<open>V\<close> when \<open>V > B\<close> and as
  \<open>V + cache_base\<close> of the main cache otherwise. Both raises are the program's
  \<open>std::runtime_error\<close>, which is what the specification calls NotSupported.
\<close>

theorem read_ptr_at_fixup_kinds:
  assumes "bnd (seek_stream off beg) (\<lambda>_. read_u64_le) bs pos = Inr (w, pos')"
  shows "read_ptr_at an B off bs pos =
    (let rebased = (\<lambda>V. if V > B then V else V + cache_base (snd (main_cache an)))
     in if \<not> bit w 63 then Inr (rebased (take_bit 36 w), pos')
     else if bit w 62 then
       Inl (runtime_error (''stumbled upon auth_bind pointer ('' @ to_string (unat w) @ '')''))
     else if take_bit 19 (drop_bit 32 w) = 0 then
       Inl (runtime_error (''stumbled upon bind pointer ('' @ to_string (unat w) @ '')''))
     else Inr (rebased (take_bit 32 w), pos'))"
proof -
  have step: "bnd (seek_stream off beg) (\<lambda>_. bnd read_u64_le F) bs pos = F w bs pos'" for F :: "u64 \<Rightarrow> u64 reader"
    using assms by (auto simp add: bnd_def split: sum.splits)
  show ?thesis
    unfolding read_ptr_at_def step
    by (simp add: ret_def throw_def bit_test_eq bit_extract_eq Let_def)
qed

lemma read_fixup_auth_rebase:
  "bnd (seek_stream 2 beg) (\<lambda>_. read_u64_le) [0, 0, 0x34, 0x12, 0, 0, 0, 0, 0x01, 0x80, 0xFF] 0
     = Inr (0x8001000000001234, 10)"
  by (simp add: bnd_def seek_stream_def read_u64_le_def read_stream_def ret_def)

lemma read_fixup_plain_bind:
  "bnd (seek_stream 0 beg) (\<lambda>_. read_u64_le) [0x34, 0x12, 0, 0, 0, 0, 0, 0x80] 5
     = Inr (0x8000000000001234, 8)"
  by (simp add: bnd_def seek_stream_def read_u64_le_def read_stream_def ret_def)

lemma read_fixup_auth_bind:
  "bnd (seek_stream 0 beg) (\<lambda>_. read_u64_le) [0x34, 0x12, 0, 0, 0, 0, 0x01, 0xC0] 0
     = Inr (0xC001000000001234, 8)"
  by (simp add: bnd_def seek_stream_def read_u64_le_def read_stream_def ret_def)

lemma read_fixup_rebase:
  "bnd (seek_stream 0 beg) (\<lambda>_. read_u64_le) [0x34, 0x12, 0, 0, 0x0F, 0, 0x01, 0x40] 0
     = Inr (0x4001000F00001234, 8)"
  by (simp add: bnd_def seek_stream_def read_u64_le_def read_stream_def ret_def)

theorem read_ptr_at_fixup_kinds_witness:
  "read_ptr_at example_analyser 0x5000 2 [0, 0, 0x34, 0x12, 0, 0, 0, 0, 0x01, 0x80, 0xFF] 0
     = Inr (0x180001234, 10) \<and>
   read_ptr_at example_analyser 0x5000 0 [0x34, 0x12, 0, 0, 0, 0, 0, 0x80] 5
     = Inl (runtime_error ''stumbled upon bind pointer (9223372036854780468)'') \<and>
   read_ptr_at example_analyser 0x5000 0 [0x34, 0x12, 0, 0, 0, 0, 0x01, 0xC0] 0
     = Inl (runtime_error ''stumbled upon auth_bind pointer (13835339530258879028)'') \<and>
   read_ptr_at example_analyser 0x5000 0 [0x34, 0x12, 0, 0, 0x0F, 0, 0x01, 0x40] 0
     = Inr (0xF00001234, 8)"
  using read_ptr_at_fixup_kinds [OF read_fixup_auth_rebase, where an = example_analyser and B = "0x5000"]
    read_ptr_at_fixup_kinds [OF read_fixup_plain_bind, where an = example_analyser and B = "0x5000"]
    read_ptr_at_fixup_kinds [OF read_fixup_auth_bind, where an = example_analyser and B = "0x5000"]
    read_ptr_at_fixup_kinds [OF read_fixup_rebase, where an = example_analyser and B = "0x5000"]
  by (simp add: example_analyser_def example_header_def main_cache_def to_string.simps)

subsection \<open>Framework matchers\<close>

lemma take_eq_iff_append: "(take (length t) r = t) \<longleftrightarrow> (\<exists>r'. r = t @ r')"
proof
  assume "take (length t) r = t"
  then have "r = t @ drop (length t) r" by (metis append_take_drop_id)
  then show "\<exists>r'. r = t @ r'" ..
next
  assume "\<exists>r'. r = t @ r'"
  then show "take (length t) r = t" by auto
qed

lemma substr_eq_at: "substr_eq (a @ r) (length a) (length t) t = Inr (\<exists>r'. r = t @ r')"
  by (simp add: substr_eq_def substr_def take_eq_iff_append)

lemma substr_eq_0: "substr_eq s 0 (length t) t = Inr (\<exists>r. s = t @ r)"
  using substr_eq_at [of "[]" s t] by simp

lemma matches_with_base_try_eq:
  "matches_with_base_try N b s =
     Inr ((\<exists>r. s = b @ N @ FRAMEWORK_EXT @ N @ r) \<or>
          (\<exists>r. s = b @ N @ FRAMEWORK_EXT @ VERSIONS_A @ N @ r))"
proof (cases "\<exists>r1. s = b @ r1")
  case False
  then show ?thesis
    by (auto simp add: matches_with_base_try_def Let_def substr_eq_0 and_also_def)
next
  case True
  then obtain r1 where s1: "s = b @ r1" by blast
  show ?thesis
  proof (cases "\<exists>r2. r1 = N @ r2")
    case False
    then show ?thesis using s1
      by (auto simp add: matches_with_base_try_def Let_def substr_eq_0 substr_eq_at and_also_def)
  next
    case True
    then obtain r2 where s2: "s = (b @ N) @ r2" using s1 by auto
    have e1: "substr_eq s 0 (length b) b = Inr True"
      using substr_eq_0 [of s b] s2 by simp
    have e2: "substr_eq s (length b) (length N) N = Inr True"
      using substr_eq_at [of b "N @ r2" N] s2 by simp
    show ?thesis
    proof (cases "\<exists>r3. r2 = FRAMEWORK_EXT @ r3")
      case False
      have e3: "substr_eq s (length b + length N) (length FRAMEWORK_EXT) FRAMEWORK_EXT = Inr False"
        using substr_eq_at [of "b @ N" r2 FRAMEWORK_EXT] False s2 by simp
      have "\<not> ((\<exists>r. s = b @ N @ FRAMEWORK_EXT @ N @ r) \<or>
               (\<exists>r. s = b @ N @ FRAMEWORK_EXT @ VERSIONS_A @ N @ r))"
        using False s2 by auto
      then show ?thesis
        by (simp add: matches_with_base_try_def Let_def e1 e2 e3 and_also_def)
    next
      case True
      then obtain r3 where s3: "s = (b @ N @ FRAMEWORK_EXT) @ r3" using s2 by auto
      have e3: "substr_eq s (length b + length N) (length FRAMEWORK_EXT) FRAMEWORK_EXT = Inr True"
        using substr_eq_at [of "b @ N" "FRAMEWORK_EXT @ r3" FRAMEWORK_EXT] s3 by simp
      have e4: "substr_eq s (length b + length N + length FRAMEWORK_EXT) (length N) N
                  = Inr (\<exists>r. r3 = N @ r)"
        using substr_eq_at [of "b @ N @ FRAMEWORK_EXT" r3 N] s3 by (simp add: add.assoc)
      have e5: "substr_eq s (length b + length N + length FRAMEWORK_EXT) (length VERSIONS_A) VERSIONS_A
                  = Inr (\<exists>r. r3 = VERSIONS_A @ r)"
        using substr_eq_at [of "b @ N @ FRAMEWORK_EXT" r3 VERSIONS_A] s3 by (simp add: add.assoc)
      have e6: "substr_eq s (length b + length N + length FRAMEWORK_EXT + length VERSIONS_A) (length N) N
                  = Inr (\<exists>r. r3 = VERSIONS_A @ N @ r)" if "\<exists>r. r3 = VERSIONS_A @ r"
      proof -
        from that obtain r4 where r4: "r3 = VERSIONS_A @ r4" by blast
        then have "s = (b @ N @ FRAMEWORK_EXT @ VERSIONS_A) @ r4" using s3 by simp
        then show ?thesis
          using substr_eq_at [of "b @ N @ FRAMEWORK_EXT @ VERSIONS_A" r4 N] r4
          by (simp add: add.assoc)
      qed
      have shape: "((\<exists>r. s = b @ N @ FRAMEWORK_EXT @ N @ r) \<or>
                    (\<exists>r. s = b @ N @ FRAMEWORK_EXT @ VERSIONS_A @ N @ r))
           \<longleftrightarrow> ((\<exists>r. r3 = N @ r) \<or> (\<exists>r. r3 = VERSIONS_A @ N @ r))"
        using s3 by auto
      show ?thesis
        unfolding shape
        using e6
        by (auto simp add: matches_with_base_try_def Let_def e1 e2 e3 e4 e5 and_also_def or_else_def)
    qed
  qed
qed

text \<open>
  C6, as stated: the matchers accept exactly the two install paths. The comparisons are
  \<open>substr\<close> comparisons of fixed length, so a path that goes on after the final
  framework name is accepted too.
\<close>

theorem framework_match_exact_counterexample:
  "FrameworkMatch_matches ''Foo'' ''/System/Library/Frameworks/Foo.framework/FooBar'' \<and>
   ''/System/Library/Frameworks/Foo.framework/FooBar''
      \<noteq> ''/System/Library/Frameworks/'' @ ''Foo'' @ ''.framework/'' @ ''Foo'' \<and>
   ''/System/Library/Frameworks/Foo.framework/FooBar''
      \<noteq> ''/System/Library/Frameworks/'' @ ''Foo'' @ ''.framework/Versions/A/'' @ ''Foo''"
  by (simp add: FrameworkMatch_matches_def matches_with_base_def matches_with_base_try_def
      substr_eq_def substr_def and_also_def or_else_def FRAMEWORK_EXT_def VERSIONS_A_def)

text \<open>
  C6, amended: for every framework name \<open>N\<close> the public matcher accepts exactly the
  strings that begin with \<open>/System/Library/Frameworks/N.framework/N\<close> or with
  \<open>/System/Library/Frameworks/N.framework/Versions/A/N\<close>, and the private matcher
  likewise under \<open>/System/Library/PrivateFrameworks/\<close>.
\<close>

theorem framework_matchers_prefix:
  "(FrameworkMatch_matches N s \<longleftrightarrow>
      (\<exists>r. s = ''/System/Library/Frameworks/'' @ N @ ''.framework/'' @ N @ r) \<or>
      (\<exists>r. s = ''/System/Library/Frameworks/'' @ N @ ''.framework/Versions/A/'' @ N @ r)) \<and>
   (PrivateFrameworkMatch_matches N s \<longleftrightarrow>
      (\<exists>r. s = ''/System/Library/PrivateFrameworks/'' @ N @ ''.framework/'' @ N @ r) \<or>
      (\<exists>r. s = ''/System/Library/PrivateFrameworks/'' @ N @ ''.framework/Versions/A/'' @ N @ r))"
  by (simp add: FrameworkMatch_matches_def PrivateFrameworkMatch_matches_def matches_with_base_def
      matches_with_base_try_eq FRAMEWORK_EXT_def VERSIONS_A_def)

subsection \<open>Hexadecimal text and the words of the sidecar\<close>

lemma digit_less_16_cases:
  "d < (16::nat) \<Longrightarrow> d = 0 \<or> d = 1 \<or> d = 2 \<or> d = 3 \<or> d = 4 \<or> d = 5 \<or> d = 6 \<or> d = 7 \<or>
     d = 8 \<or> d = 9 \<or> d = 10 \<or> d = 11 \<or> d = 12 \<or> d = 13 \<or> d = 14 \<or> d = 15"
  by arith

lemma hex_digit_code:
  assumes "d < 16"
  shows "(of_char (''0123456789abcdef'' ! d) :: nat) = (if d < 10 then 48 + d else 87 + d)"
  using digit_less_16_cases [OF assms] by (elim disjE) simp_all

lemma hex_val_digit: "d < 16 \<Longrightarrow> hex_val (''0123456789abcdef'' ! d) = Some d"
  by (simp add: hex_val_def hex_digit_code Let_def)

lemma isspace_digit: "d < 16 \<Longrightarrow> \<not> isspace (''0123456789abcdef'' ! d)"
  by (simp add: isspace_def hex_digit_code Let_def)

lemma hex_val_not_special:
  "hex_val c \<noteq> None \<Longrightarrow> \<not> isspace c \<and> c \<noteq> CHR '':'' \<and> c \<noteq> CHR ''-'' \<and> c \<noteq> CHR ''+''
      \<and> c \<noteq> CHR ''x'' \<and> c \<noteq> CHR ''X''"
  by (auto simp add: hex_val_def isspace_def Let_def split: if_splits)

lemma to_hex_all_hex: "c \<in> set (to_hex n) \<Longrightarrow> hex_val c \<noteq> None"
proof (induction n arbitrary: c rule: to_hex.induct)
  case (1 n)
  show ?case
  proof (cases "n < 16")
    case True
    with "1.prems" show ?thesis by (simp add: to_hex.simps [of n] hex_val_digit)
  next
    case False
    with "1.prems" have "c \<in> set (to_hex (n div 16)) \<or> c = ''0123456789abcdef'' ! (n mod 16)"
      by (auto simp add: to_hex.simps [of n])
    then show ?thesis using "1.IH" [OF False] by (auto simp add: hex_val_digit)
  qed
qed

lemma to_hex_nonempty: "to_hex n \<noteq> []"
  by (subst to_hex.simps) simp

lemma hex_run_all_hex:
  "(\<And>c. c \<in> set s \<Longrightarrow> hex_val c \<noteq> None) \<Longrightarrow> hex_run s = map (\<lambda>c. the (hex_val c)) s"
  by (induction s) (auto split: option.splits)

lemma foldl_to_hex:
  "foldl (\<lambda>a d. a * 16 + d) 0 (map (\<lambda>c. the (hex_val c)) (to_hex n)) = n"
proof (induction n rule: to_hex.induct)
  case (1 n)
  show ?case
  proof (cases "n < 16")
    case True
    then show ?thesis by (simp add: to_hex.simps [of n] hex_val_digit)
  next
    case False
    then show ?thesis using "1.IH" [OF False]
      by (simp add: to_hex.simps [of n] hex_val_digit)
  qed
qed

lemma skip_0x_to_hex: "skip_0x (to_hex n) = to_hex n"
proof -
  have "\<And>c. c \<in> set (to_hex n) \<Longrightarrow> c \<noteq> CHR ''x'' \<and> c \<noteq> CHR ''X''"
    using to_hex_all_hex hex_val_not_special by blast
  then show ?thesis
    by (auto simp add: skip_0x_def split: list.splits)
qed

lemma strtol16_to_hex: "strtol16 (to_hex n) = Some (int n)"
proof -
  obtain c cs where cs: "to_hex n = c # cs" using to_hex_nonempty by (cases "to_hex n") auto
  then have "hex_val c \<noteq> None" using to_hex_all_hex [of c n] by simp
  then have c: "\<not> isspace c" "c \<noteq> CHR ''-''" "c \<noteq> CHR ''+''"
    using hex_val_not_special by blast+
  have run: "hex_run (to_hex n) = map (\<lambda>c. the (hex_val c)) (to_hex n)"
    by (rule hex_run_all_hex) (rule to_hex_all_hex)
  have "dropWhile isspace (to_hex n) = to_hex n" using cs c by simp
  moreover have "hex_run (to_hex n) \<noteq> []" using run to_hex_nonempty by simp
  ultimately show ?thesis
    using c cs skip_0x_to_hex [of n] run foldl_to_hex [of n]
    by (simp add: strtol16_def Let_def)
qed

lemma stoll16_to_hex: "n < 2 ^ 63 \<Longrightarrow> stoll16 (to_hex n) = Inr (int n)"
  by (simp add: stoll16_def strtol16_to_hex)

lemma stoi16_to_hex: "n < 2 ^ 31 \<Longrightarrow> stoi16 (to_hex n) = Inr (int n)"
  by (simp add: stoi16_def strtol16_to_hex)

lemma last_to_hex: "last (to_hex n) \<noteq> CHR '':''"
  using to_hex_all_hex [of "last (to_hex n)" n] to_hex_nonempty [of n] hex_val_not_special
  by (metis last_in_set)

lemma tokens_from_word:
  "(\<And>c. c \<in> set w \<Longrightarrow> \<not> isspace c) \<Longrightarrow> tokens_from acc (w @ rest) = tokens_from (acc @ w) rest"
  by (induction w arbitrary: acc) auto

lemma tokens_from_word_space:
  assumes "\<And>c. c \<in> set w \<Longrightarrow> \<not> isspace c" and "w \<noteq> []" and "isspace sp"
  shows "tokens_from [] (w @ sp # rest) = w # tokens_from [] rest"
  using assms by (simp add: tokens_from_word)

subsection \<open>The patch and revert cycle of scenario S5\<close>

lemma char_of_unat_of_char: "char_of (unat (of_char c :: u8)) = c"
proof -
  have "(of_char c :: u8) = of_nat (of_char c)" by (simp add: of_nat_of_char)
  then have "unat (of_char c :: u8) = (of_char c :: nat) mod 256"
    by (simp add: unat_of_nat)
  then show ?thesis by simp
qed

lemma bytes_text_text_bytes: "bytes_text (text_bytes s) = s"
  by (induction s) (simp_all add: bytes_text_def text_bytes_def char_of_unat_of_char)

lemma text_bytes_inj: "text_bytes s = text_bytes t \<Longrightarrow> s = t"
  by (metis bytes_text_text_bytes)

lemma s5_queue_eq: "s5_queue = [(''cache'', [(4, [0x1F,0x20,0x03,0xD5])])]"
  by (simp add: s5_queue_def Patcher_write_def)

lemma replicate16: "replicate 16 (x::u8) = [x,x,x,x,x,x,x,x,x,x,x,x,x,x,x,x]"
  by (simp add: numeral_eq_Suc)

lemma s5_flush_entries:
  "flush_entries [(4, [0x1F,0x20,0x03,0xD5])] (replicate 16 0xAA) []
     = ((s5_patched, ''4: aa aa aa aa '' @ [CHR 0x0A]), None)"
  by (simp add: replicate16 bnd_def seek_stream_def read_stream_def write_at_def to_hex.simps s5_patched_def)

lemma s5_flush:
  "flush s5_queue s5_fs =
     (\<lparr> files = [''cache'' \<mapsto> s5_patched,
                 ''cache.InfernoOriginalBytes'' \<mapsto> text_bytes (''4: aa aa aa aa '' @ [CHR 0x0A])],
         ops = [OpenReadWrite ''cache'', OpenTruncate ''cache.InfernoOriginalBytes''] \<rparr>, None)"
  by (simp add: s5_queue_eq s5_fs_def flush_file_def s5_flush_entries ORIG_BYTE_FILE_EXT_def Let_def
      del: flush_entries.simps)

lemma s5_tokens: "tokens (''4: aa aa aa aa '' @ [CHR 0x0A]) = [''4:'', ''aa'', ''aa'', ''aa'', ''aa'']"
  by (simp add: tokens_def isspace_def)

lemma stoi_aa: "stoi16 ''aa'' = Inr 170"
  by (simp add: stoi16_def strtol16_def isspace_def skip_0x_def hex_val_def)

lemma stoll_4: "stoll16 ''4'' = Inr 4"
  by (simp add: stoll16_def strtol16_def isspace_def skip_0x_def hex_val_def)

lemma s5_revert_loop:
  "revert_loop [''4:'', ''aa'', ''aa'', ''aa'', ''aa''] s5_patched 0 = (replicate 16 0xAA, None)"
  by (simp add: stoi_aa stoll_4 write_at_def replicate16 s5_patched_def)

text \<open>
  C7, as stated: after the commit the sidecar is exactly \<open>4: aa aa aa aa\<close> and a
  newline. Each byte is written followed by a space, so the line ends in a space before
  the newline.
\<close>

theorem s5_sidecar_counterexample:
  "files (fst (flush s5_queue s5_fs)) ''cache.InfernoOriginalBytes''
     \<noteq> Some (text_bytes (''4: aa aa aa aa'' @ [CHR 0x0A]))"
proof
  assume "files (fst (flush s5_queue s5_fs)) ''cache.InfernoOriginalBytes''
     = Some (text_bytes (''4: aa aa aa aa'' @ [CHR 0x0A]))"
  then have "text_bytes (''4: aa aa aa aa '' @ [CHR 0x0A]) = text_bytes (''4: aa aa aa aa'' @ [CHR 0x0A])"
    by (simp add: s5_flush)
  then have "''4: aa aa aa aa '' @ [CHR 0x0A] = ''4: aa aa aa aa'' @ [CHR 0x0A]"
    by (rule text_bytes_inj)
  then show False by simp
qed

lemma s5_revert:
  "revert ''cache'' \<lparr> files = [''cache'' \<mapsto> s5_patched,
                 ''cache.InfernoOriginalBytes'' \<mapsto> text_bytes (''4: aa aa aa aa '' @ [CHR 0x0A])],
         ops = [OpenReadWrite ''cache'', OpenTruncate ''cache.InfernoOriginalBytes''] \<rparr>
   = (\<lparr> files = [''cache'' \<mapsto> replicate 16 0xAA],
        ops = [OpenReadWrite ''cache'', OpenTruncate ''cache.InfernoOriginalBytes'',
               Exists ''cache.InfernoOriginalBytes'', OpenRead ''cache.InfernoOriginalBytes'',
               OpenReadWrite ''cache'', Remove ''cache.InfernoOriginalBytes''] \<rparr>, None)"
  by (simp add: revert_def ORIG_BYTE_FILE_EXT_def bytes_text_text_bytes s5_tokens [simplified] s5_revert_loop Let_def
      fun_upd_twist
      del: revert_loop.simps)

text \<open>
  C7, amended: on the 16-byte file of 0xAA, staging the write of 1F 20 03 D5 at offset 4
  and committing patches the four bytes and leaves a sidecar whose content is
  \<open>4: aa aa aa aa\<close>, a space and a newline; the revert that follows restores the
  sixteen bytes of 0xAA and removes the sidecar.
\<close>

theorem s5_patch_revert_cycle:
  "fst (flush s5_queue s5_fs) =
     \<lparr> files = [''cache'' \<mapsto> s5_patched,
                 ''cache.InfernoOriginalBytes'' \<mapsto> text_bytes (''4: aa aa aa aa '' @ [CHR 0x0A])],
         ops = [OpenReadWrite ''cache'', OpenTruncate ''cache.InfernoOriginalBytes''] \<rparr> \<and>
   snd (flush s5_queue s5_fs) = None \<and>
   files (fst (revert ''cache'' (fst (flush s5_queue s5_fs)))) = [''cache'' \<mapsto> replicate 16 0xAA] \<and>
   snd (revert ''cache'' (fst (flush s5_queue s5_fs))) = None"
  by (simp add: s5_flush s5_revert [simplified])

subsection \<open>Staging and committing\<close>

lemma map_emplace_twice: "map_emplace k v2 (map_emplace k v1 m) = map_emplace k v1 m"
  by (induction m) auto

lemma queue_emplace_twice:
  "queue_emplace p k v2 (queue_emplace p k v1 q) = queue_emplace p k v1 q"
  by (induction q) (auto simp add: map_emplace_twice)

text \<open>
  C5, amended: \<open>write\<close> stages with \<open>emplace\<close>, which leaves a key that is
  already there untouched. Of two writes staged at the same path and offset the later one
  is dropped: the queue is the one the earlier write left, and a commit writes the earlier
  write's bytes at that offset.
\<close>

theorem same_key_first_write_wins:
  "Patcher_write p off b2 (Patcher_write p off b1 q) = Patcher_write p off b1 q \<and>
   (files fs p = Some file \<and> 0 \<le> sint off \<and> nat (sint off) + length b1 \<le> length file \<longrightarrow>
      files (fst (flush (Patcher_write p off b2 (Patcher_write p off b1 [])) fs)) p
        = Some (write_at file (nat (sint off)) b1))"
  by (auto simp add: Patcher_write_def queue_emplace_twice flush_file_def bnd_def seek_stream_def
      read_stream_def Let_def ORIG_BYTE_FILE_EXT_def)

theorem same_key_first_write_wins_witness:
  "files s5_fs ''cache'' = Some (replicate 16 0xAA) \<and> 0 \<le> sint (4 :: streamoff) \<and>
   nat (sint (4 :: streamoff)) + length [0x1F, 0x20, 0x03, 0xD5 :: u8] \<le> length (replicate 16 (0xAA :: u8)) \<and>
   Patcher_write ''cache'' 4 [0, 0, 0, 0] s5_queue = s5_queue \<and>
   files (fst (flush (Patcher_write ''cache'' 4 [0, 0, 0, 0] s5_queue) s5_fs)) ''cache'' = Some s5_patched"
  using same_key_first_write_wins [of "''cache''" 4 "[0, 0, 0, 0]" "[0x1F, 0x20, 0x03, 0xD5]" "[]" s5_fs
      "replicate 16 0xAA", folded s5_queue_def]
  by (auto simp add: s5_fs_def s5_patched_def write_at_def replicate16)

text \<open>
  C5, as stated: the later of two writes at the same key replaces the earlier. Here the
  bytes committed at offset 0 are those of the first write.
\<close>

theorem same_key_later_write_counterexample:
  "files (fst (flush (Patcher_write ''cache'' 0 [0x22] (Patcher_write ''cache'' 0 [0x11] []))
                 \<lparr>files = [''cache'' \<mapsto> [0, 0]], ops = []\<rparr>)) ''cache'' = Some [0x11, 0]"
  by (simp add: Patcher_write_def flush_file_def bnd_def seek_stream_def
      read_stream_def Let_def ORIG_BYTE_FILE_EXT_def write_at_def)

text \<open>
  C9, amended: a commit with an empty queue, that is, with no write staged since the
  patcher was constructed, opens no file, creates or truncates no sidecar and leaves every
  file as it is. (A commit does not empty the queue.)
\<close>

theorem flush_empty_queue: "flush [] fs = (fs, None)"
  by simp

text \<open>
  C9, as stated, also covers a commit with nothing staged since the last commit.
  \<open>flush\<close> is \<open>const\<close> and leaves the queue as it is, so a second commit
  opens the file again, truncates the sidecar and records the patched bytes in it.
\<close>

theorem flush_again_counterexample:
  "snd (flush s5_queue s5_fs) = None \<and>
   files (fst (flush s5_queue (fst (flush s5_queue s5_fs)))) ''cache.InfernoOriginalBytes''
     = Some (text_bytes (''4: 1f 20 3 d5 '' @ [CHR 0x0A])) \<and>
   files (fst (flush s5_queue s5_fs)) ''cache.InfernoOriginalBytes''
     = Some (text_bytes (''4: aa aa aa aa '' @ [CHR 0x0A])) \<and>
   ops (fst (flush s5_queue (fst (flush s5_queue s5_fs)))) =
     [OpenReadWrite ''cache'', OpenTruncate ''cache.InfernoOriginalBytes'',
      OpenReadWrite ''cache'', OpenTruncate ''cache.InfernoOriginalBytes'']"
  unfolding s5_flush fst_conv snd_conv
  by (simp add: s5_queue_eq flush_file_def bnd_def seek_stream_def read_stream_def Let_def
      ORIG_BYTE_FILE_EXT_def s5_patched_def to_hex.simps write_at_def)

subsection \<open>Commit followed by revert\<close>

lemma length_write_at:
  "new = [] \<or> pos + length new \<le> length f \<Longrightarrow> length (write_at f pos new) = length f"
  by (auto simp add: write_at_def)

lemma nth_write_at:
  assumes "new = [] \<or> pos + length new \<le> length f" and "i < length f"
  shows "write_at f pos new ! i =
           (if pos \<le> i \<and> i < pos + length new then new ! (i - pos) else f ! i)"
proof (cases "new = []")
  case True
  then show ?thesis by (auto simp add: write_at_def)
next
  case False
  have rng: "pos + length new \<le> length f" using assms False by simp
  have le: "pos \<le> length f" using rng by simp
  have eq: "write_at f pos new = take pos f @ new @ drop (pos + length new) f"
    using False le by (simp add: write_at_def)
  have len1: "length (take pos f) = pos" using le by simp
  consider "i < pos" | "pos \<le> i" "i < pos + length new" | "pos + length new \<le> i" by linarith
  then show ?thesis
  proof cases
    case 1
    then show ?thesis unfolding eq using assms(2) rng le by (simp add: nth_append)
  next
    case 2
    then have a: "\<not> i < pos" "i - pos < length new" by arith+
    show ?thesis unfolding eq using 2 a assms(2) rng le by (simp add: nth_append)
  next
    case 3
    then have a: "\<not> i < pos" "\<not> i - pos < length new" "\<not> i < pos + length new"
      and b: "pos + length new + (i - pos - length new) = i" by arith+
    have "(take pos f @ new @ drop (pos + length new) f) ! i
            = drop (pos + length new) f ! (i - pos - length new)"
      using a assms(2) rng le by (simp add: nth_append)
    also have "\<dots> = f ! i" using b assms(2) rng by simp
    finally show ?thesis unfolding eq using a by simp
  qed
qed

lemma slice_write_at_apart:
  assumes "new = [] \<or> pos + length new \<le> length f" and "p + n \<le> pos \<or> pos + length new \<le> p"
  shows "take n (drop p (write_at f pos new)) = take n (drop p f)"
proof (rule nth_equalityI)
  show "length (take n (drop p (write_at f pos new))) = length (take n (drop p f))"
    using assms(1) by (simp add: length_write_at)
next
  fix i assume "i < length (take n (drop p (write_at f pos new)))"
  then have i: "i < n" "p + i < length f" using assms(1) by (auto simp add: length_write_at)
  then have "write_at f pos new ! (p + i) = f ! (p + i)"
    using assms nth_write_at [of new pos f "p + i"] by auto
  then show "take n (drop p (write_at f pos new)) ! i = take n (drop p f) ! i"
    using i assms(1) by (simp add: length_write_at)
qed

lemma write_at_Cons: "write_at (write_at g pos [b]) (Suc pos) bs = write_at g pos (b # bs)"
proof (cases "bs = []")
  case True
  then show ?thesis by (simp add: write_at_def)
next
  case False
  have "take (Suc pos) (take pos g @ replicate (pos - length g) 0 @ b # drop (Suc pos) g)
          = take pos g @ replicate (pos - length g) 0 @ [b]"
    by (auto simp add: min_def Suc_diff_le)
  moreover have "drop (Suc (pos + length bs)) (take pos g @ replicate (pos - length g) 0 @ b # drop (Suc pos) g)
          = drop (Suc (pos + length bs)) g"
    by (auto simp add: min_def add.commute)
  moreover have "Suc pos - length (take pos g @ replicate (pos - length g) 0 @ b # drop (Suc pos) g) = 0"
    by (auto simp add: min_def)
  ultimately show ?thesis using False by (simp add: write_at_def)
qed


lemma flush_entries_step:
  assumes "flush_entries ((off, new) # rest) f diff = ((f', diff'), None)"
  shows "in_file f (off, new) \<and>
         flush_entries rest (write_at f (nat (sint off)) new)
            (diff @ sidecar_line (original_bytes f (off, new))) = ((f', diff'), None)"
  using assms
  by (auto simp add: bnd_def seek_stream_def read_stream_def in_file_def sidecar_line_def
      original_bytes_def Let_def split: if_splits)

lemma apart_slice:
  assumes "in_file f e" and "in_file f e'" and "apart e e'"
  shows "original_bytes (write_at f (nat (sint (fst e))) (snd e)) e' = original_bytes f e'"
proof (cases "snd e' = []")
  case True
  then show ?thesis by (simp add: original_bytes_def)
next
  case False
  have a: "snd e = [] \<or> nat (sint (fst e)) + length (snd e) \<le> length f"
    using assms(1) by (simp add: in_file_def)
  have "nat (sint (fst e')) + length (snd e') \<le> nat (sint (fst e)) \<or>
        nat (sint (fst e)) + length (snd e) \<le> nat (sint (fst e'))"
    using assms by (auto simp add: in_file_def apart_def)
  then show ?thesis
    using slice_write_at_apart [OF a, of "nat (sint (fst e'))" "length (snd e')"]
    by (simp add: original_bytes_def)
qed

lemma flush_entries_ok:
  assumes "flush_entries es f diff = ((f', diff'), None)" and "disjoint_writes es"
  shows "length f' = length f \<and> list_all (in_file f) es \<and>
         (\<forall>i<length f. (\<forall>e\<in>set es. \<not> covers e i) \<longrightarrow> f' ! i = f ! i) \<and>
         diff' = diff @ concat (map (\<lambda>e. sidecar_line (original_bytes f e)) es)"
  using assms
proof (induction es arbitrary: f diff)
  case Nil
  then show ?case by simp
next
  case (Cons e es)
  obtain off new where e: "e = (off, new)" by (cases e)
  let ?f1 = "write_at f (nat (sint off)) new"
  from Cons.prems(1) have inf: "in_file f e"
    and rest: "flush_entries es ?f1 (diff @ sidecar_line (original_bytes f e)) = ((f', diff'), None)"
    using flush_entries_step [of off new es f diff f' diff'] unfolding e by simp_all
  from Cons.prems(2) have ap: "list_all (apart e) es" and dis: "disjoint_writes es" by simp_all
  have inr: "new = [] \<or> nat (sint off) + length new \<le> length f"
    using inf by (simp add: in_file_def e)
  have len1: "length ?f1 = length f" using inr by (rule length_write_at)
  note ih = Cons.IH [OF rest dis]
  have inall: "list_all (in_file f) es"
    using ih len1 by (simp add: in_file_def list_all_iff)
  have frame: "f' ! i = f ! i" if "i < length f" and "\<forall>x\<in>set (e # es). \<not> covers x i" for i
  proof -
    have "f' ! i = ?f1 ! i" using ih that len1 by simp
    also have "\<dots> = f ! i"
      using that nth_write_at [OF inr, of i]
      by (auto simp add: covers_def e)
    finally show ?thesis .
  qed
  have recs: "map (\<lambda>x. sidecar_line (original_bytes ?f1 x)) es
                = map (\<lambda>x. sidecar_line (original_bytes f x)) es"
  proof (rule map_cong [OF refl])
    fix x assume "x \<in> set es"
    then have "in_file f x" "apart e x" using inall ap by (simp_all add: list_all_iff)
    then show "sidecar_line (original_bytes ?f1 x) = sidecar_line (original_bytes f x)"
      using apart_slice [OF inf, of x] by (simp add: e)
  qed
  show ?case
    using ih len1 inf inall frame recs by simp
qed

lemma length_original_bytes:
  "in_file f e \<Longrightarrow> length (snd (original_bytes f e)) = length (snd e)"
  by (auto simp add: original_bytes_def in_file_def)

lemma restore_original:
  assumes "list_all (in_file f) es" and "length g = length f"
    and "\<forall>i<length f. (\<forall>e\<in>set es. \<not> covers e i) \<longrightarrow> g ! i = f ! i"
  shows "restore (map (original_bytes f) es) g = f"
  using assms
proof (induction es arbitrary: g)
  case Nil
  then show ?case by (simp add: list_eq_iff_nth_eq)
next
  case (Cons e es)
  let ?o = "nat (sint (fst e))"
  let ?orig = "take (length (snd e)) (drop ?o f)"
  let ?g1 = "write_at g ?o ?orig"
  from Cons.prems(1) have inf: "in_file f e" and inall: "list_all (in_file f) es" by simp_all
  have lo: "length ?orig = length (snd e)" using inf by (auto simp add: in_file_def)
  have rng: "?orig = [] \<or> ?o + length ?orig \<le> length g"
    using inf Cons.prems(2) lo by (auto simp add: in_file_def)
  have len1: "length ?g1 = length f" using length_write_at [OF rng] Cons.prems(2) by simp
  have agree: "?g1 ! i = f ! i" if "i < length f" and "\<forall>x\<in>set es. \<not> covers x i" for i
  proof (cases "covers e i")
    case True
    then have "?g1 ! i = ?orig ! (i - ?o)"
      using nth_write_at [OF rng, of i] that Cons.prems(2) lo by (simp add: covers_def)
    also have "\<dots> = f ! i"
    proof -
      have a: "i - ?o < length (snd e)" and b: "?o + (i - ?o) = i"
        using True by (auto simp add: covers_def)
      have "?orig ! (i - ?o) = drop ?o f ! (i - ?o)" using a by simp
      also have "\<dots> = f ! (?o + (i - ?o))" using inf that a by (auto simp add: in_file_def)
      finally show ?thesis using b by simp
    qed
    finally show ?thesis .
  next
    case False
    then have "?g1 ! i = g ! i"
      using nth_write_at [OF rng, of i] that Cons.prems(2) lo by (auto simp add: covers_def)
    then show ?thesis using False that Cons.prems(3) by simp
  qed
  have "restore (map (original_bytes f) es) ?g1 = f"
    using Cons.IH [OF inall len1] agree by simp
  moreover have "original_bytes f e = (fst e, ?orig)" by (simp add: original_bytes_def)
  ultimately show ?case by simp
qed

lemma to_hex_no_space: "c \<in> set (to_hex n) \<Longrightarrow> \<not> isspace c"
  using to_hex_all_hex hex_val_not_special by blast

lemma isspace_chars: "isspace CHR '' ''" "isspace (CHR 0x0A)" "\<not> isspace CHR '':''"
  by (simp_all add: isspace_def)

lemma tokens_bytes:
  "tokens_from [] (concat (map (\<lambda>byte. to_hex (unat byte) @ '' '') bs) @ rest)
     = map (\<lambda>byte. to_hex (unat byte)) bs @ tokens_from [] rest"
proof (induction bs)
  case Nil
  show ?case by simp
next
  case (Cons b bs)
  have "tokens_from [] (to_hex (unat b) @ CHR '' '' # (concat (map (\<lambda>byte. to_hex (unat byte) @ '' '') bs) @ rest))
          = to_hex (unat b) # tokens_from [] (concat (map (\<lambda>byte. to_hex (unat byte) @ '' '') bs) @ rest)"
    by (rule tokens_from_word_space) (simp_all add: to_hex_no_space to_hex_nonempty isspace_chars)
  then show ?case using Cons.IH by simp
qed

lemma tokens_line:
  "tokens_from [] (sidecar_line r @ rest) = line_tokens r @ tokens_from [] rest"
proof -
  let ?w = "to_hex (unat (fst r)) @ '':''"
  let ?bytes = "concat (map (\<lambda>byte. to_hex (unat byte) @ '' '') (snd r))"
  have w: "\<And>c. c \<in> set ?w \<Longrightarrow> \<not> isspace c" "?w \<noteq> []"
    using to_hex_no_space isspace_chars by auto
  have "sidecar_line r @ rest = ?w @ CHR '' '' # (?bytes @ (CHR 0x0A # rest))"
    by (simp add: sidecar_line_def)
  then have "tokens_from [] (sidecar_line r @ rest) = ?w # tokens_from [] (?bytes @ (CHR 0x0A # rest))"
    using tokens_from_word_space [of ?w "CHR '' ''" "?bytes @ (CHR 0x0A # rest)"] w isspace_chars
    by simp
  also have "\<dots> = ?w # map (\<lambda>byte. to_hex (unat byte)) (snd r) @ tokens_from [] (CHR 0x0A # rest)"
    by (simp only: tokens_bytes)
  also have "\<dots> = line_tokens r @ tokens_from [] rest"
    using isspace_chars by (simp add: line_tokens_def)
  finally show ?thesis .
qed

lemma tokens_sidecar:
  "tokens (concat (map sidecar_line rs)) = concat (map line_tokens rs)"
proof -
  have "tokens_from [] (concat (map sidecar_line rs)) = concat (map line_tokens rs)"
  proof (induction rs)
    case Nil
    show ?case by simp
  next
    case (Cons r rs)
    then show ?case using tokens_line [of r "concat (map sidecar_line rs)"] by simp
  qed
  then show ?thesis by (simp add: tokens_def)
qed

lemma sint_nonneg_eq_uint:
  fixes w :: "64 word"
  assumes "0 \<le> sint w"
  shows "sint w = uint w"
proof -
  have "sint w = take_bit 64 (uint w) - 2 ^ 64 * of_bool (bit (uint w) 63)"
    by (simp add: sint_uint signed_take_bit_eq_take_bit_minus)
  moreover have "take_bit 64 (uint w) = uint w"
    by (simp add: take_bit_int_eq_self_iff uint_lt2p [of w, simplified])
  moreover have "uint w < 2 ^ 64" using uint_lt2p [of w] by simp
  ultimately show ?thesis using assms by (cases "bit (uint w) 63") simp_all
qed

lemma byte_of_value: "(word_of_int (int (unat (b :: u8)) AND 0xFF) :: u8) = b"
proof -
  have "uint b < 2 ^ 8" using uint_lt2p [of b] by simp
  then have "take_bit 8 (uint b) = uint b" by (simp add: take_bit_int_eq_self_iff)
  then have "uint b AND mask 8 = uint b" by (simp add: take_bit_eq_mask)
  then have "uint b AND 0xFF = uint b" by (simp add: mask_eq_exp_minus_1)
  then show ?thesis by simp
qed

lemma revert_bytes:
  "revert_loop (map (\<lambda>byte. to_hex (unat byte)) bs @ rest) g pos
     = revert_loop rest (write_at g pos bs) (pos + length bs)"
proof (induction bs arbitrary: g pos)
  case Nil
  show ?case by (simp add: write_at_def)
next
  case (Cons b bs)
  have "unat b < 2 ^ 8" using unsigned_less [of b, where ?'a = nat] by simp
  then have lt: "unat b < 2 ^ 31" by simp
  have "uint b = int (unat b)" by simp
  then show ?case
    using Cons.IH [of "write_at g pos [b]" "Suc pos"] last_to_hex [of "unat b"]
      stoi16_to_hex [OF lt] byte_of_value [of b]
    by (simp add: write_at_Cons Let_def del: of_nat_unat)
qed

lemma revert_line:
  assumes "0 \<le> sint (fst r)"
  shows "revert_loop (line_tokens r @ rest) g pos
     = revert_loop rest (write_at g (nat (sint (fst r))) (snd r)) (nat (sint (fst r)) + length (snd r))"
proof -
  have u: "int (unat (fst r)) = sint (fst r)"
    using sint_nonneg_eq_uint [OF assms] by simp
  have "sint (fst r) < 2 ^ 63" using sint_lt [of "fst r"] by simp
  then have "int (unat (fst r)) < int (2 ^ 63)" using u by simp
  then have lt: "unat (fst r) < 2 ^ 63" by (simp only: of_nat_less_iff)
  show ?thesis
    using stoll16_to_hex [OF lt] u assms revert_bytes [of "snd r" rest g "nat (sint (fst r))"]
    by (simp add: line_tokens_def)
qed

lemma revert_records:
  assumes "list_all (\<lambda>r. 0 \<le> sint (fst r)) rs"
  shows "revert_loop (concat (map line_tokens rs)) g pos = (restore rs g, None)"
  using assms
proof (induction rs arbitrary: g pos)
  case Nil
  show ?case by simp
next
  case (Cons r rs)
  then show ?case using revert_line [of r "concat (map line_tokens rs)" g pos] by simp
qed

lemma flush_file_ok:
  assumes "flush_file p m fs = (fs', None)"
  shows "\<exists>f f' diff. files fs p = Some f \<and> flush_entries m f [] = ((f', diff), None) \<and>
           files fs' = (files fs)(p \<mapsto> f', p @ ORIG_BYTE_FILE_EXT \<mapsto> text_bytes diff)"
  using assms
  by (auto simp add: flush_file_def Let_def split: option.splits prod.splits)

lemma flush_file_frame:
  assumes "flush_file p m fs = (fs', r)" and "x \<noteq> p" and "x \<noteq> p @ ORIG_BYTE_FILE_EXT"
  shows "files fs' x = files fs x"
  using assms
  by (auto simp add: flush_file_def Let_def split: option.splits prod.splits)

lemma flush_frame:
  assumes "flush q fs = (fs', r)"
    and "\<forall>p\<in>set (map fst q). x \<noteq> p \<and> x \<noteq> p @ ORIG_BYTE_FILE_EXT"
  shows "files fs' x = files fs x"
  using assms
proof (induction q arbitrary: fs)
  case Nil
  then show ?case by simp
next
  case (Cons pm q)
  obtain p m where pm: "pm = (p, m)" by (cases pm)
  obtain fsA rA where A: "flush_file p m fs = (fsA, rA)" by (cases "flush_file p m fs")
  have xa: "files fsA x = files fs x"
    using flush_file_frame [OF A] Cons.prems(2) pm by simp
  show ?case
  proof (cases rA)
    case None
    then have "flush q fsA = (fs', r)" using Cons.prems(1) A pm by simp
    then have "files fs' x = files fsA x" using Cons.IH Cons.prems(2) by simp
    then show ?thesis using xa by simp
  next
    case (Some e)
    then have "fs' = fsA" using Cons.prems(1) A pm by simp
    then show ?thesis using xa by simp
  qed
qed

lemma ext_append_inj: "p @ ORIG_BYTE_FILE_EXT = C @ ORIG_BYTE_FILE_EXT \<Longrightarrow> p = C"
  by simp

lemma not_own_sidecar: "C \<noteq> C @ ORIG_BYTE_FILE_EXT"
  by (simp add: ORIG_BYTE_FILE_EXT_def)

lemma flush_path:
  assumes "flush q fs0 = (fs1, None)" and "distinct (map fst q)" and "map_of q C = Some m"
    and "no_sidecar_clash C q"
  shows "\<exists>f f' diff. files fs0 C = Some f \<and> flush_entries m f [] = ((f', diff), None) \<and>
           files fs1 C = Some f' \<and> files fs1 (C @ ORIG_BYTE_FILE_EXT) = Some (text_bytes diff)"
  using assms
proof (induction q arbitrary: fs0)
  case Nil
  then show ?case by simp
next
  case (Cons pm q)
  obtain p mp where pm: "pm = (p, mp)" by (cases pm)
  obtain fsA rA where A: "flush_file p mp fs0 = (fsA, rA)" by (cases "flush_file p mp fs0")
  have rA: "rA = None" using Cons.prems(1) A pm by (cases rA) simp_all
  have rest: "flush q fsA = (fs1, None)" using Cons.prems(1) A pm rA by simp
  have clash: "\<forall>x\<in>set (map fst q). x \<noteq> C @ ORIG_BYTE_FILE_EXT \<and> C \<noteq> x @ ORIG_BYTE_FILE_EXT"
    using Cons.prems(4) by (simp add: no_sidecar_clash_def list_all_iff)
  show ?case
  proof (cases "p = C")
    case True
    then have m: "mp = m" using Cons.prems(3) pm by simp
    have notin: "C \<notin> set (map fst q)" using Cons.prems(2) pm True by simp
    from flush_file_ok [OF A [unfolded rA]] obtain f f' diff where
      f: "files fs0 p = Some f" "flush_entries mp f [] = ((f', diff), None)"
         "files fsA = (files fs0)(p \<mapsto> f', p @ ORIG_BYTE_FILE_EXT \<mapsto> text_bytes diff)"
      by blast
    have "files fs1 C = files fsA C"
      using flush_frame [OF rest, of C] notin clash by auto
    moreover have "files fs1 (C @ ORIG_BYTE_FILE_EXT) = files fsA (C @ ORIG_BYTE_FILE_EXT)"
    proof (rule flush_frame [OF rest])
      show "\<forall>p\<in>set (map fst q). C @ ORIG_BYTE_FILE_EXT \<noteq> p \<and>
              C @ ORIG_BYTE_FILE_EXT \<noteq> p @ ORIG_BYTE_FILE_EXT"
      proof
        fix x assume x: "x \<in> set (map fst q)"
        then have "x \<noteq> C @ ORIG_BYTE_FILE_EXT" "x \<noteq> C" using clash notin by auto
        then show "C @ ORIG_BYTE_FILE_EXT \<noteq> x \<and> C @ ORIG_BYTE_FILE_EXT \<noteq> x @ ORIG_BYTE_FILE_EXT"
          by auto
      qed
    qed
    ultimately show ?thesis using f True m not_own_sidecar [of C] by auto
  next
    case False
    have c1: "C \<noteq> p @ ORIG_BYTE_FILE_EXT" and c2: "C @ ORIG_BYTE_FILE_EXT \<noteq> p"
      using Cons.prems(4) pm by (auto simp add: no_sidecar_clash_def)
    have same: "files fsA C = files fs0 C"
      using flush_file_frame [OF A, of C] False c1 by simp
    have "map_of q C = Some m" using Cons.prems(3) pm False by simp
    moreover have "distinct (map fst q)" using Cons.prems(2) by simp
    moreover have "no_sidecar_clash C q" using Cons.prems(4) by (simp add: no_sidecar_clash_def)
    ultimately show ?thesis using Cons.IH [OF rest] same by simp
  qed
qed

lemma revert_after_flush:
  assumes "files fs C = Some f'"
    and "files fs (C @ ORIG_BYTE_FILE_EXT) = Some (text_bytes (concat (map sidecar_line rs)))"
    and "list_all (\<lambda>r. 0 \<le> sint (fst r)) rs"
  shows "snd (revert C fs) = None \<and> files (fst (revert C fs)) C = Some (restore rs f') \<and>
         files (fst (revert C fs)) (C @ ORIG_BYTE_FILE_EXT) = None"
  using assms not_own_sidecar [of C]
  by (simp add: revert_def Let_def bytes_text_text_bytes tokens_sidecar revert_records)

lemma set_queue_emplace:
  "fst ` set (queue_emplace p k v q) = insert p (fst ` set q)"
proof (induction q)
  case Nil
  show ?case by simp
next
  case (Cons a q)
  obtain p' m where a: "a = (p', m)" by (cases a)
  show ?case
  proof (cases "p = p'")
    case True
    then show ?thesis by (simp add: a)
  next
    case False
    then show ?thesis using Cons.IH by (simp add: a insert_commute)
  qed
qed

lemma distinct_queue_emplace:
  "distinct (map fst q) \<Longrightarrow> distinct (map fst (queue_emplace p k v q))"
  by (induction q) (auto simp add: set_queue_emplace)

lemma distinct_stage: "distinct (map fst q) \<Longrightarrow> distinct (map fst (stage ws q))"
  by (induction ws arbitrary: q) (auto simp add: Patcher_write_def distinct_queue_emplace)

text \<open>
  A staged write of no byte past the end of the file is committed: the read of no byte
  succeeds, the file keeps its length and the sidecar gets a line with the offset alone.
\<close>

lemma flush_zero_length_past_end:
  "flush (Patcher_write ''cache'' 10 [] []) \<lparr> files = [''cache'' \<mapsto> [1, 2, 3, 4]], ops = [] \<rparr> =
     (\<lparr> files = [''cache'' \<mapsto> [1, 2, 3, 4],
                  ''cache.InfernoOriginalBytes'' \<mapsto> text_bytes (''a: '' @ [CHR 0x0A])],
        ops = [OpenReadWrite ''cache'', OpenTruncate ''cache.InfernoOriginalBytes''] \<rparr>, None)"
  by (simp add: Patcher_write_def queue_emplace.simps map_emplace.simps flush_file_def bnd_def
      seek_stream_def read_stream_def Let_def ORIG_BYTE_FILE_EXT_def to_hex.simps write_at_def)

text \<open>
  C1, amended: for every sequence of writes staged through a patcher whose commit
  succeeds, and every file \<open>C\<close> among the staged paths whose staged writes have
  pairwise disjoint byte ranges, \<open>revert\<close> on \<open>C\<close> succeeds, gives \<open>C\<close> the
  content it had before the commit and deletes the sidecar of \<open>C\<close>. (No staged path
  is the sidecar of \<open>C\<close>, nor \<open>C\<close> the sidecar of a staged path.)
\<close>

theorem commit_then_revert_restores:
  assumes "flush (stage ws []) fs0 = (fs1, None)"
    and "map_of (stage ws []) C = Some m"
    and "disjoint_writes m"
    and "no_sidecar_clash C (stage ws [])"
  shows "snd (revert C fs1) = None \<and> files (fst (revert C fs1)) C = files fs0 C \<and>
         files (fst (revert C fs1)) (C @ ORIG_BYTE_FILE_EXT) = None"
proof -
  have "distinct (map fst (stage ws []))" by (rule distinct_stage) simp
  from flush_path [OF assms(1) this assms(2) assms(4)] obtain f f' diff where
    f: "files fs0 C = Some f" "flush_entries m f [] = ((f', diff), None)"
       "files fs1 C = Some f'" "files fs1 (C @ ORIG_BYTE_FILE_EXT) = Some (text_bytes diff)"
    by blast
  from flush_entries_ok [OF f(2) assms(3)] have
    ok: "length f' = length f" "list_all (in_file f) m"
        "\<forall>i<length f. (\<forall>e\<in>set m. \<not> covers e i) \<longrightarrow> f' ! i = f ! i"
        "diff = concat (map sidecar_line (map (original_bytes f) m))"
    by (simp_all add: comp_def)
  have nonneg: "list_all (\<lambda>r. 0 \<le> sint (fst r)) (map (original_bytes f) m)"
    using ok(2) by (simp add: list_all_iff in_file_def original_bytes_def)
  have "restore (map (original_bytes f) m) f' = f"
    by (rule restore_original [OF ok(2) ok(1) ok(3)])
  then show ?thesis
    using revert_after_flush [OF f(3) f(4) [unfolded ok(4)] nonneg] f(1) by simp
qed

lemma disjoint_staged_queue:
  "stage disjoint_staged [] =
     [(''cache'', [(0, [0xC0, 0x03]), (4, [0x1F, 0x20, 0x03, 0xD5])]), (''cache.01'', [(1, [9])])]"
  by (simp add: disjoint_staged_def Patcher_write_def word_sless_alt)

lemma disjoint_staged_flush: "snd (flush (stage disjoint_staged []) two_files) = None"
  unfolding disjoint_staged_queue
  by (simp add: two_files_def flush_file_def bnd_def seek_stream_def read_stream_def Let_def
      write_at_def ORIG_BYTE_FILE_EXT_def)

lemma overlapping_staged_queue:
  "stage overlapping_staged [] =
     [(''cache'', [(0, [0x10, 0x11, 0x12, 0x13]), (2, [0x20, 0x21, 0x22, 0x23])])]"
  by (simp add: overlapping_staged_def Patcher_write_def word_sless_alt)

lemma overlapping_flush:
  "flush (stage overlapping_staged []) one_file =
     (\<lparr> files = [''cache'' \<mapsto> [0x10, 0x11, 0x20, 0x21, 0x22, 0x23],
                 ''cache.InfernoOriginalBytes'' \<mapsto>
                    text_bytes (concat (map sidecar_line [(0, [0, 1, 2, 3]), (2, [0x12, 0x13, 4, 5])]))],
         ops = [OpenReadWrite ''cache'', OpenTruncate ''cache.InfernoOriginalBytes''] \<rparr>, None)"
  unfolding overlapping_staged_queue
  by (simp add: one_file_def flush_file_def bnd_def seek_stream_def read_stream_def Let_def
      write_at_def sidecar_line_def ORIG_BYTE_FILE_EXT_def)

text \<open>
  C1, as stated, includes staged writes whose byte ranges overlap. The commit records for
  the second write the bytes the first write has just put there, and the revert replays the
  sidecar from its first line to its last: bytes 2 and 3 of the file end as the first
  write's bytes, not as the original ones.
\<close>

theorem overlapping_writes_counterexample:
  "snd (flush (stage overlapping_staged []) one_file) = None \<and>
   snd (revert ''cache'' (fst (flush (stage overlapping_staged []) one_file))) = None \<and>
   files one_file ''cache'' = Some [0, 1, 2, 3, 4, 5] \<and>
   files (fst (revert ''cache'' (fst (flush (stage overlapping_staged []) one_file)))) ''cache''
     = Some [0, 1, 0x12, 0x13, 4, 5]"
proof -
  have "list_all (\<lambda>r. 0 \<le> sint (fst r)) [(0 :: streamoff, [0, 1, 2, 3 :: u8]), (2, [0x12, 0x13, 4, 5])]"
    by simp
  from revert_after_flush [of _ "''cache''" "[0x10, 0x11, 0x20, 0x21, 0x22, 0x23]", OF _ _ this]
  show ?thesis
    unfolding overlapping_flush fst_conv snd_conv
    by (simp add: ORIG_BYTE_FILE_EXT_def write_at_def one_file_def)
qed

theorem commit_then_revert_restores_witness:
  "flush (stage disjoint_staged []) two_files = (fst (flush (stage disjoint_staged []) two_files), None) \<and>
   map_of (stage disjoint_staged []) ''cache'' = Some [(0, [0xC0, 0x03]), (4, [0x1F, 0x20, 0x03, 0xD5])] \<and>
   disjoint_writes [(0, [0xC0, 0x03]), (4, [0x1F, 0x20, 0x03, 0xD5])] \<and>
   no_sidecar_clash ''cache'' (stage disjoint_staged []) \<and>
   snd (revert ''cache'' (fst (flush (stage disjoint_staged []) two_files))) = None \<and>
   files (fst (revert ''cache'' (fst (flush (stage disjoint_staged []) two_files)))) ''cache''
      = Some [0, 1, 2, 3, 4, 5, 6, 7] \<and>
   files (fst (revert ''cache'' (fst (flush (stage disjoint_staged []) two_files))))
      ''cache.InfernoOriginalBytes'' = None"
proof -
  have h1: "flush (stage disjoint_staged []) two_files
              = (fst (flush (stage disjoint_staged []) two_files), None)"
    using disjoint_staged_flush by (simp add: prod_eq_iff)
  have h2: "map_of (stage disjoint_staged []) ''cache''
              = Some [(0, [0xC0, 0x03]), (4, [0x1F, 0x20, 0x03, 0xD5])]"
    by (simp add: disjoint_staged_queue)
  have h3: "disjoint_writes [(0 :: streamoff, [0xC0, 0x03 :: u8]), (4, [0x1F, 0x20, 0x03, 0xD5])]"
    by (simp add: apart_def)
  have h4: "no_sidecar_clash ''cache'' (stage disjoint_staged [])"
    by (simp add: disjoint_staged_queue no_sidecar_clash_def ORIG_BYTE_FILE_EXT_def)
  show ?thesis
    using commit_then_revert_restores [OF h1 h2 h3 h4] h1 h2 h3 h4
    by (simp add: two_files_def ORIG_BYTE_FILE_EXT_def)
qed

subsection \<open>The ADRP and ADD pair\<close>













lemma xFFF_mask: "(0xFFF :: u64) = mask 12"
  by (simp add: mask_eq_exp_minus_1)

lemma page_low: "take_bit 12 ((x :: u64) AND NOT 0xFFF) = 0"
  unfolding xFFF_mask by (rule bit_eqI) (simp add: bit_simps)










lemma word_of_int_neg_uint: "(word_of_int (- uint (d :: u64)) :: u64) = - d"
  by simp
























subsection \<open>The scan for a BL\<close>

lemma read_u32_le_at:
  assumes "pos + 4 \<le> length stream"
  shows "read_u32_le stream pos = Inr (le32 (take 4 (drop pos stream)), pos + 4)"
  using assms by (simp add: read_u32_le_def bnd_def read_stream_def ret_def le32_def)

lemma find_bl_loop_step:
  assumes "bl_scanned stream base reverse i = Some w" and "int pos = bl_scan_pos base reverse i"
    and "i < unat inst_limit"
  shows "find_bl_loop stream start_addr target_addr reverse inst_limit i pos =
           (if w AND BL_INST_MASK = BL_INST \<and>
               (target_addr = - 1 \<or> disas_bl (bl_inst_addr start_addr reverse i) w = target_addr)
            then Inr (bl_inst_addr start_addr reverse i)
            else find_bl_loop stream start_addr target_addr reverse inst_limit (Suc i)
                   (nat (bl_scan_pos base reverse (Suc i))))"
proof -
  have sc: "(if 0 \<le> int pos \<and> nat (int pos) + 4 \<le> length stream \<and> (reverse \<longrightarrow> 4 \<le> int pos)
             then Some (le32 (take 4 (drop (nat (int pos)) stream))) else None) = Some w"
    using assms(1) unfolding bl_scanned_def Let_def assms(2) [symmetric] .
  have p: "pos + 4 \<le> length stream" "reverse \<Longrightarrow> 4 \<le> pos" "w = le32 (take 4 (drop pos stream))"
    using sc by (auto split: if_splits)
  have nxt: "nat (bl_scan_pos base reverse (Suc i)) = (if reverse then pos - 4 else pos + 4)"
    using assms(2) p(2) by (auto simp add: bl_scan_pos_def)
  show ?thesis
    apply (subst find_bl_loop.simps)
    using assms(3) p(2)
    apply (simp add: read_u32_le_at [OF p(1)] p(3) [symmetric] seek_stream_def Let_def
        bl_inst_addr_def nxt)
    apply (auto simp add: nat_diff_distrib)
    done
qed

lemma find_bl_loop_first:
  assumes "k < unat inst_limit"
    and "\<forall>j<k. \<exists>w. bl_scanned stream base reverse j = Some w \<and> w AND BL_INST_MASK \<noteq> BL_INST"
    and "bl_scanned stream base reverse k = Some w" and "w AND BL_INST_MASK = BL_INST"
    and "i \<le> k"
  shows "find_bl_loop stream start_addr (- 1) reverse inst_limit i (nat (bl_scan_pos base reverse i))
           = Inr (bl_inst_addr start_addr reverse k)"
  using assms(5)
proof (induction "k - i" arbitrary: i)
  case 0
  then have "i = k" by simp
  have "0 \<le> bl_scan_pos base reverse k"
    using assms(3) by (auto simp add: bl_scanned_def Let_def split: if_splits)
  then have "int (nat (bl_scan_pos base reverse k)) = bl_scan_pos base reverse k" by simp
  from find_bl_loop_step [OF assms(3) this assms(1)] show ?case
    using assms(4) \<open>i = k\<close> by simp
next
  case (Suc n)
  then have lt: "i < k" by simp
  then obtain wi where wi: "bl_scanned stream base reverse i = Some wi" "wi AND BL_INST_MASK \<noteq> BL_INST"
    using assms(2) by blast
  have "0 \<le> bl_scan_pos base reverse i"
    using wi(1) by (auto simp add: bl_scanned_def Let_def split: if_splits)
  then have "int (nat (bl_scan_pos base reverse i)) = bl_scan_pos base reverse i" by simp
  moreover have "i < unat inst_limit" using lt assms(1) by simp
  ultimately have "find_bl_loop stream start_addr (- 1) reverse inst_limit i (nat (bl_scan_pos base reverse i))
      = find_bl_loop stream start_addr (- 1) reverse inst_limit (Suc i) (nat (bl_scan_pos base reverse (Suc i)))"
    using find_bl_loop_step [OF wi(1)] wi(2) by simp
  moreover have "n = k - Suc i" "Suc i \<le> k" using Suc(2) lt by simp_all
  ultimately show ?case using Suc(1) by simp
qed

text \<open>
  C10: with the target address \<open>2 ^ 64 - 1\<close>, the default, \<open>find_bl\<close> returns the address
  of the first scanned word that matches the BL mask, whatever its branch target is: the
  value stands for no target. A BL that branches to \<open>2 ^ 64 - 1\<close> is therefore found only
  if it is the first BL of the scan.
\<close>

theorem find_bl_sentinel_first_match:
  assumes "vm_addr_to_file_off header start_addr = Inr base" and "0 \<le> sint base"
    and "k < unat inst_limit"
    and "bl_first_at stream (nat (sint base)) reverse k"
  shows "find_bl stream header start_addr (- 1) reverse inst_limit = Inr (bl_inst_addr start_addr reverse k)"
proof -
  have before: "\<forall>j<k. \<exists>w. bl_scanned stream (nat (sint base)) reverse j = Some w \<and> w AND BL_INST_MASK \<noteq> BL_INST"
  proof (intro allI impI)
    fix j assume "j < k"
    then have "case bl_scanned stream (nat (sint base)) reverse j of
                 None \<Rightarrow> False | Some w \<Rightarrow> w AND BL_INST_MASK \<noteq> BL_INST"
      using assms(4) by (simp add: bl_first_at_def list_all_iff)
    then show "\<exists>w. bl_scanned stream (nat (sint base)) reverse j = Some w \<and> w AND BL_INST_MASK \<noteq> BL_INST"
      by (cases "bl_scanned stream (nat (sint base)) reverse j") simp_all
  qed
  obtain w where w: "bl_scanned stream (nat (sint base)) reverse k = Some w" "w AND BL_INST_MASK = BL_INST"
    using assms(4) by (auto simp add: bl_first_at_def split: option.splits)
  have "nat (bl_scan_pos (nat (sint base)) reverse 0) = nat (sint base)"
    by (simp add: bl_scan_pos_def)
  then show ?thesis
    using find_bl_loop_first [OF assms(3) before w, of 0 start_addr] assms(1,2)
    by (simp add: find_bl_def seek_stream_def)
qed

lemma bl_stream_words:
  "bl_scanned bl_stream 0 False 0 = Some 0xD503201F"
  "bl_scanned bl_stream 0 False 1 = Some 0x94000002"
  "bl_scanned bl_stream 0 False 2 = Some 0x97FFFFFD"
  "bl_scanned bl_stream 0 False 3 = Some 0x97FFFFFD"
  by (simp_all add: bl_scanned_def bl_scan_pos_def bl_stream_def le32_def Let_def)

lemma bl_stream_targets:
  "disas_bl 7 0x94000002 = 15" "disas_bl 11 0x97FFFFFD = - 1" "disas_bl 15 0x97FFFFFD = 3"
  by (simp_all add: disas_bl_def sign_extend_def bit_test_def bit_extract_def make_bit_mask_def
      word_sless_alt Let_def)

theorem find_bl_sentinel_first_match_witness:
  "vm_addr_to_file_off bl_header 3 = Inr 0 \<and> 0 \<le> sint (0 :: u64) \<and> 1 < unat (0x400 :: u32) \<and>
   bl_first_at bl_stream (nat (sint (0 :: u64))) False 1 \<and>
   find_bl bl_stream bl_header 3 (- 1) False 0x400 = Inr 7 \<and>
   bl_scanned bl_stream 0 False 1 = Some 0x94000002 \<and> disas_bl 7 0x94000002 = 15 \<and>
   bl_scanned bl_stream 0 False 2 = Some 0x97FFFFFD \<and> disas_bl 11 0x97FFFFFD = - 1"
proof -
  have h1: "vm_addr_to_file_off bl_header 3 = Inr 0"
    by (simp add: bl_header_def vm_addr_to_file_off_def)
  have h4: "bl_first_at bl_stream (nat (sint (0 :: u64))) False 1"
    using bl_stream_words by (simp add: bl_first_at_def BL_INST_MASK_def BL_INST_def)
  have h2: "0 \<le> sint (0 :: u64)" and h3: "1 < unat (0x400 :: u32)" by simp_all
  show ?thesis
    using find_bl_sentinel_first_match [OF h1 h2 h3 h4] h1 h4 bl_stream_words bl_stream_targets
    by (simp add: bl_inst_addr_def)
qed


text \<open>For comparison, a scan of the same stream for the target 3 passes over the two BLs before.\<close>

lemma find_bl_by_target_example:
  "find_bl bl_stream bl_header 3 3 False 0x400 = Inr 15"
proof -
  have lim: "0 < unat (0x400 :: u32)" "1 < unat (0x400 :: u32)" "2 < unat (0x400 :: u32)"
    "3 < unat (0x400 :: u32)" by simp_all
  have p: "int 0 = bl_scan_pos 0 False 0" "int 4 = bl_scan_pos 0 False 1"
    "int 8 = bl_scan_pos 0 False 2" "int 12 = bl_scan_pos 0 False 3"
    by (simp_all add: bl_scan_pos_def)
  have n: "nat (bl_scan_pos 0 False (Suc 0)) = 4" "nat (bl_scan_pos 0 False (Suc 1)) = 8"
    "nat (bl_scan_pos 0 False (Suc 2)) = 12"
    by (simp_all add: bl_scan_pos_def)
  have a: "bl_inst_addr 3 False 1 = 7" "bl_inst_addr 3 False 2 = 11" "bl_inst_addr 3 False 3 = 15"
    by (simp_all add: bl_inst_addr_def)
  have "find_bl bl_stream bl_header 3 3 False 0x400 = find_bl_loop bl_stream 3 3 False 0x400 0 0"
    by (simp add: find_bl_def bl_header_def vm_addr_to_file_off_def seek_stream_def)
  also have "\<dots> = find_bl_loop bl_stream 3 3 False 0x400 (Suc 0) 4"
    unfolding find_bl_loop_step [OF bl_stream_words(1) p(1) lim(1)] n
    by (simp add: BL_INST_MASK_def BL_INST_def)
  also have "\<dots> = find_bl_loop bl_stream 3 3 False 0x400 (Suc 1) 8"
    unfolding One_nat_def [symmetric] find_bl_loop_step [OF bl_stream_words(2) p(2) lim(2)] n a
    by (simp add: bl_stream_targets)
  also have "\<dots> = find_bl_loop bl_stream 3 3 False 0x400 (Suc 2) 12"
    unfolding Suc_1 find_bl_loop_step [OF bl_stream_words(3) p(3) lim(3)] n a
    by (simp add: bl_stream_targets)
  also have "\<dots> = Inr 15"
    unfolding eval_nat_numeral(3) [symmetric] numeral_3_eq_3 [symmetric]
      find_bl_loop_step [OF bl_stream_words(4) p(4) lim(4)] a
    by (simp add: bl_stream_targets BL_INST_MASK_def BL_INST_def)
  finally show ?thesis .
qed

subsection \<open>A main header without images\<close>

lemma main_directory_empty:
  assumes "image_dir mapping_off + 8 \<le> length stream"
    and "u32_at stream (image_dir mapping_off + 4) = 0"
  shows "DyldCacheHeader_main mapping_off h stream pos =
           (if 0x18C \<le> mapping_off
            then Inl (runtime_error ''main cache expected, but got a subcache'')
            else Inr (h\<lparr> images := [], subcaches := [] \<rparr>, 0x20))"
proof (cases "0x18C \<le> mapping_off")
  case True
  then have len: "0x1C0 + 4 \<le> length stream" "0x1C4 + 4 \<le> length stream"
    and cnt: "le32 (take 4 (drop 0x1C4 stream)) = 0"
    using assms by (simp_all add: image_dir_def u32_at_def)
  show ?thesis
    using True cnt
    by (simp add: DyldCacheHeader_main_def bnd_def seek_stream_def throw_def
        read_u32_le_at [OF len(1)] read_u32_le_at [OF len(2)])
next
  case False
  then have len: "0x18 + 4 \<le> length stream" "0x1C + 4 \<le> length stream"
    and cnt: "le32 (take 4 (drop 0x1C stream)) = 0"
    using assms by (simp_all add: image_dir_def u32_at_def)
  show ?thesis
    using False cnt
    by (simp add: DyldCacheHeader_main_def bnd_def seek_stream_def ret_def
        read_u32_le_at [OF len(1)] read_u32_le_at [OF len(2)])
qed

text \<open>
  C4, amended: when the part of a main header before the image directory parses and the
  image directory declares no image, the constructor throws \<open>std::runtime_error\<close> with
  the text \<open>main cache expected, but got a subcache\<close> if the offset field is at least
  \<open>0x18C\<close>, and otherwise constructs the header, with no image and no subcache.
\<close>

theorem main_header_image_count_zero:
  assumes "DyldCacheHeader_common Main main_cache_base stream 0 = Inr ((mapping_off, h), pos)"
    and "image_dir mapping_off + 8 \<le> length stream"
    and "u32_at stream (image_dir mapping_off + 4) = 0"
  shows "DyldCacheHeader_ctor stream Main main_cache_base =
           (if 0x18C \<le> mapping_off
            then Inl (runtime_error ''main cache expected, but got a subcache'')
            else Inr (h\<lparr> images := [], subcaches := [] \<rparr>))"
  using assms(1) main_directory_empty [OF assms(2,3), of h pos]
  by (simp add: DyldCacheHeader_ctor_def bnd_def)

text \<open>
  C4 as stated fails in the legacy layout: a main header with the offset field \<open>0x180\<close>
  and an image count of 0 is constructed.
\<close>

theorem main_header_legacy_counterexample:
  "u32_at legacy_empty_stream 0x10 = 0x180 \<and> u32_at legacy_empty_stream 0x1C = 0 \<and>
   DyldCacheHeader_ctor legacy_empty_stream Main 0 = Inr empty_header"
  by code_simp

theorem main_header_image_count_zero_witness:
  "DyldCacheHeader_common Main 0 split_empty_stream 0 =
     Inr ((0x1D0, empty_header\<lparr> symbol_file_uuid := [1, 2, 3, 4, 5, 6, 7, 8, 9, 10, 11, 12, 13, 14, 15, 16] \<rparr>),
          0x1A0) \<and>
   image_dir 0x1D0 + 8 \<le> length split_empty_stream \<and>
   u32_at split_empty_stream (image_dir 0x1D0 + 4) = 0 \<and>
   DyldCacheHeader_ctor split_empty_stream Main 0 =
     Inl (runtime_error ''main cache expected, but got a subcache'') \<and>
   DyldCacheHeader_common Main 0 legacy_empty_stream 0 = Inr ((0x180, empty_header), 0x4C) \<and>
   image_dir 0x180 + 8 \<le> length legacy_empty_stream \<and>
   u32_at legacy_empty_stream (image_dir 0x180 + 4) = 0 \<and>
   DyldCacheHeader_ctor legacy_empty_stream Main 0 = Inr empty_header"
proof -
  have s1: "DyldCacheHeader_common Main 0 split_empty_stream 0 =
     Inr ((0x1D0, empty_header\<lparr> symbol_file_uuid := [1, 2, 3, 4, 5, 6, 7, 8, 9, 10, 11, 12, 13, 14, 15, 16] \<rparr>),
          0x1A0)"
    by code_simp
  have s2: "image_dir 0x1D0 + 8 \<le> length split_empty_stream" by code_simp
  have s3: "u32_at split_empty_stream (image_dir 0x1D0 + 4) = 0" by code_simp
  have l1: "DyldCacheHeader_common Main 0 legacy_empty_stream 0 = Inr ((0x180, empty_header), 0x4C)"
    by code_simp
  have l2: "image_dir 0x180 + 8 \<le> length legacy_empty_stream" by code_simp
  have l3: "u32_at legacy_empty_stream (image_dir 0x180 + 4) = 0" by code_simp
  show ?thesis
    using main_header_image_count_zero [OF s1 s2 s3] main_header_image_count_zero [OF l1 l2 l3]
      s1 s2 s3 l1 l2 l3
    by (simp add: empty_header_def)
qed

subsection \<open>The version gates of the header\<close>

lemma bnd_InrE:
  assumes "bnd m f s p = Inr r"
  obtains v p' where "m s p = Inr (v, p')" and "f v s p' = Inr r"
  using assms by (auto simp add: bnd_def split: sum.splits)

lemma ret_Inr: "ret x s p = Inr r \<longleftrightarrow> r = (x, p)"
  by (auto simp add: ret_def)

lemma seek_beg_Inr: "seek_stream n beg s p = Inr r \<longleftrightarrow> 0 \<le> n \<and> r = ((), nat n)"
  by (auto simp add: seek_stream_def Let_def)

lemma seek_cur_Inr: "seek_stream (int n) cur s p = Inr r \<longleftrightarrow> r = ((), p + n)"
  by (auto simp add: seek_stream_def Let_def nat_add_distrib)

lemma read_u32_le_Inr:
  "read_u32_le s p = Inr r \<longleftrightarrow> p + 4 \<le> length s \<and> r = (u32_at s p, p + 4)"
  by (auto simp add: read_u32_le_def bnd_def read_stream_def ret_def le32_def u32_at_def)

lemma read_u64_le_Inr:
  "read_u64_le s p = Inr r \<longleftrightarrow> p + 8 \<le> length s \<and> r = (u64_at s p, p + 8)"
  by (auto simp add: read_u64_le_def bnd_def read_stream_def ret_def le64_def u64_at_def)

lemma tellg_Inr: "tellg s p = Inr r \<longleftrightarrow> r = (p, p)"
  by (auto simp add: tellg_def)

lemma cstr_scan_takeWhile:
  "cstr_scan xs = Some (s, n) \<Longrightarrow> s = takeWhile (\<lambda>b. b \<noteq> 0) xs"
  by (induction xs arbitrary: s n) (auto split: if_splits option.splits)

lemma read_cstr_Inr:
  "read_cstr s p = Inr (str, p') \<Longrightarrow> str = cstr_at s p"
  by (auto simp add: read_cstr_def cstr_at_def text_of_def split: option.splits
      dest: cstr_scan_takeWhile)

lemma cstrn_loop_takeWhile:
  "cstrn_loop n xs = Inr s \<Longrightarrow> s = takeWhile (\<lambda>b. b \<noteq> 0) (take n xs)"
proof (induction n xs arbitrary: s rule: cstrn_loop.induct)
  case (1 rest)
  then show ?case by simp
next
  case (2 k)
  then show ?case by simp
next
  case (3 k b rest)
  then show ?case by (auto split: if_splits sum.splits)
qed

lemma read_cstrn_Inr:
  "read_cstrn n s p = Inr r \<Longrightarrow> r = (cstrn_at s p n, p + n)"
  by (auto simp add: read_cstrn_def cstrn_at_def text_of_def split: sum.splits
      dest: cstrn_loop_takeWhile)

lemma Image_ctor_Inr:
  assumes "Image_ctor s p = Inr r"
  shows "r = (image_at s p, p + 32)"
  using assms unfolding Image_ctor_def
  apply (elim bnd_InrE)
  apply (simp only: ret_Inr seek_beg_Inr tellg_Inr read_u64_le_Inr read_u32_le_Inr
      seek_cur_Inr [of 16, simplified] seek_cur_Inr [of 4, simplified])
  apply (auto simp add: image_at_def add.commute nat_add_distrib dest!: read_cstr_Inr)
  done


lemma read_n_Image_ctor:
  "read_n n Image_ctor s p = Inr r \<Longrightarrow> r = (map (\<lambda>i. image_at s (p + 32 * i)) [0..<n], p + 32 * n)"
proof (induction n arbitrary: p r)
  case 0
  then show ?case by (simp add: ret_Inr)
next
  case (Suc n)
  from Suc.prems obtain x p1 xs p2 where
    x: "Image_ctor s p = Inr (x, p1)" and xs: "read_n n Image_ctor s p1 = Inr (xs, p2)"
    and r: "r = (x # xs, p2)"
    by (auto simp add: ret_Inr elim!: bnd_InrE)
  have x': "x = image_at s p" "p1 = p + 32" using Image_ctor_Inr [OF x] by simp_all
  have xs': "xs = map (\<lambda>i. image_at s (p1 + 32 * i)) [0..<n]" "p2 = p1 + 32 * n"
    using Suc.IH [OF xs] by simp_all
  have "map (\<lambda>i. image_at s (p + 32 * i)) [0..<Suc n]
        = image_at s p # map (\<lambda>i. image_at s (p + 32 * Suc i)) [0..<n]"
    using map_upt_Suc [of "\<lambda>i. image_at s (p + 32 * i)" n] by simp
  then show ?case using r x' xs' by (simp add: add.assoc)
qed

lemma Subcache_ctor_Inr:
  assumes "Subcache_ctor i v1 s p = Inr r"
  shows "r = (\<lparr> vm_off = u64_at s (p + 16),
                suffix = (if v1 then ''.'' @ to_string (unat (i + 1)) else cstrn_at s (p + 24) 32) \<rparr>,
              p + (if v1 then 24 else 56))"
  using assms unfolding Subcache_ctor_def
  apply (elim bnd_InrE)
  apply (simp only: ret_Inr read_u64_le_Inr seek_cur_Inr [of 16, simplified])
  apply (auto simp add: ret_Inr add.commute dest!: read_cstrn_Inr split: if_splits)
  done

lemma Subcache_loop_Inr:
  "Subcache_loop n i v1 s p = Inr r \<Longrightarrow> unat i + n < 2 ^ 32 \<Longrightarrow>
     r = (map (\<lambda>j. if v1
                   then \<lparr> vm_off = u64_at s (p + 24 * j + 16), suffix = ''.'' @ to_string (unat i + j + 1) \<rparr>
                   else \<lparr> vm_off = u64_at s (p + 56 * j + 16), suffix = cstrn_at s (p + 56 * j + 24) 32 \<rparr>)
              [0..<n],
          p + (if v1 then 24 else 56) * n)"
proof (induction n arbitrary: i p r)
  case 0
  then show ?case by (simp add: ret_Inr)
next
  case (Suc n)
  let ?f = "\<lambda>i p j. if v1
                   then \<lparr> vm_off = u64_at s (p + 24 * j + 16), suffix = ''.'' @ to_string (unat i + j + 1) \<rparr>
                   else \<lparr> vm_off = u64_at s (p + 56 * j + 16), suffix = cstrn_at s (p + 56 * j + 24) 32 \<rparr>"
  from Suc.prems(1) obtain x p1 xs p2 where
    x: "Subcache_ctor i v1 s p = Inr (x, p1)" and xs: "Subcache_loop n (i + 1) v1 s p1 = Inr (xs, p2)"
    and r: "r = (x # xs, p2)"
    by (auto simp add: ret_Inr elim!: bnd_InrE)
  have i1: "unat (i + 1) = unat i + 1"
    using Suc.prems(2) by (simp add: unat_word_ariths)
  have x': "x = ?f i p 0" "p1 = p + (if v1 then 24 else 56)"
    using Subcache_ctor_Inr [OF x] i1 by simp_all
  have "unat (i + 1) + n < 2 ^ 32" using Suc.prems(2) i1 by simp
  from Suc.IH [OF xs this]
  have xs': "xs = map (?f (i + 1) p1) [0..<n]" "p2 = p1 + (if v1 then 24 else 56) * n"
    by simp_all
  have "map (?f i p) [0..<Suc n] = ?f i p 0 # map (\<lambda>j. ?f i p (Suc j)) [0..<n]"
    by (rule map_upt_Suc)
  moreover have "?f i p (Suc j) = ?f (i + 1) p1 j" for j
    using x'(2) i1 by (simp add: add.assoc add.commute add.left_commute)
  ultimately show ?case using r x' xs' by (simp add: add.assoc)
qed


lemma read_stream_Inr:
  "0 < n \<Longrightarrow> read_stream n s p = Inr r \<longleftrightarrow> p + n \<le> length s \<and> r = (take n (drop p s), p + n)"
  by (auto simp add: read_stream_def)

lemma common_main_Inr:
  assumes "DyldCacheHeader_common Main mcb s 0 = Inr ((mo, h), p)"
  shows "mo = u32_at s 0x10 \<and>
         symbol_file_uuid h = (if 0x190 \<le> mo then take 16 (drop 0x190 s) else DyldUUID_default)"
  using assms
    unfolding DyldCacheHeader_common_def
    apply (elim bnd_InrE)
    apply (simp only: Type.distinct simp_thms if_False if_True Let_def)
    apply (elim bnd_InrE)
    apply (simp only: seek_beg_Inr read_u32_le_Inr read_u64_le_Inr)
    apply (elim conjE)
    apply (simp only: prod.inject fst_conv snd_conv)
    apply (clarsimp split: prod.splits elim!: bnd_InrE simp: ret_Inr)
    apply (auto simp add: ret_Inr seek_beg_Inr DyldUUID_read_def read_stream_Inr elim!: bnd_InrE
        split: if_splits)
    done


lemma read_n_Image_ctor_fst:
  "read_n n Image_ctor s p = Inr (imgs, p') \<Longrightarrow> imgs = map (\<lambda>i. image_at s (p + 32 * i)) [0..<n]"
  by (drule read_n_Image_ctor) simp

lemma Subcache_loop_0:
  assumes "Subcache_loop (unat (n :: u32)) 0 v1 s off = Inr (subs, p')"
  shows "subs = map (subcache_at s v1 off) [0..<unat n]"
proof -
  have "unat (0 :: u32) + unat n < 2 ^ 32" using unsigned_less [of n, where 'a = nat] by simp
  from Subcache_loop_Inr [OF assms this] show ?thesis
    by (auto simp add: subcache_at_def)
qed

lemma main_Inr:
  assumes "DyldCacheHeader_main mo h1 s p = Inr (h, p')"
  shows "symbol_file_uuid h = symbol_file_uuid h1 \<and>
         images h = images_at s (if 0x18C \<le> mo then 0x1C0 else 0x18) \<and>
         subcaches h = (if 0x18C \<le> mo then subcaches_at s 0x188 (mo \<le> 0x1C8) else [])"
proof (cases "0x18C \<le> mo")
  case True
  show ?thesis
    using assms unfolding DyldCacheHeader_main_def Let_def
    apply (simp only: True if_True simp_thms)
    apply (elim bnd_InrE)
    apply (simp only: seek_beg_Inr read_u32_le_Inr)
    apply (auto simp add: throw_def ret_Inr seek_beg_Inr read_u32_le_Inr images_at_def
        subcaches_at_def Let_def unat_eq_0
        elim!: bnd_InrE dest!: read_n_Image_ctor_fst Subcache_loop_0 split: if_splits)
    done
next
  case False
  show ?thesis
    using assms unfolding DyldCacheHeader_main_def Let_def
    apply (simp only: False if_False simp_thms)
    apply (elim bnd_InrE)
    apply (simp only: seek_beg_Inr read_u32_le_Inr)
    apply (auto simp add: ret_Inr seek_beg_Inr images_at_def Let_def unat_eq_0
        elim!: bnd_InrE dest!: read_n_Image_ctor_fst split: if_splits)
    done
qed

text \<open>
  C3: the fields of a main header that was constructed are those the layout gives for
  the offset field \<open>m\<close> read at \<open>0x10\<close>. The UUID of the symbol file is the 16 bytes at
  \<open>0x190\<close> if \<open>m\<close> is at least \<open>0x190\<close> and null otherwise; the subcaches are those of the
  directory at \<open>0x188\<close> if \<open>m\<close> is at least \<open>0x18C\<close>, numbered if \<open>m\<close> is at most \<open>0x1C8\<close>
  and with their suffix in 32 bytes otherwise, and none if \<open>m\<close> is less than \<open>0x18C\<close>; the
  images are those of the directory at \<open>0x1C0\<close> if \<open>m\<close> is at least \<open>0x18C\<close> and of the
  directory at \<open>0x18\<close> otherwise.
\<close>

theorem header_version_gates:
  assumes "DyldCacheHeader_ctor stream Main main_cache_base = Inr h"
  shows "symbol_file_uuid h =
           (if 0x190 \<le> u32_at stream 0x10 then take 16 (drop 0x190 stream) else DyldUUID_default) \<and>
         subcaches h =
           (if 0x18C \<le> u32_at stream 0x10
            then subcaches_at stream 0x188 (u32_at stream 0x10 \<le> 0x1C8) else []) \<and>
         images h = images_at stream (if 0x18C \<le> u32_at stream 0x10 then 0x1C0 else 0x18)"
proof -
  from assms obtain mo h1 p1 p2 where
    c: "DyldCacheHeader_common Main main_cache_base stream 0 = Inr ((mo, h1), p1)"
    and m: "DyldCacheHeader_main mo h1 stream p1 = Inr (h, p2)"
    by (auto simp add: DyldCacheHeader_ctor_def split: sum.splits elim!: bnd_InrE)
  show ?thesis using common_main_Inr [OF c] main_Inr [OF m] by simp
qed

lemma legacy_stream_header: "DyldCacheHeader_ctor legacy_stream Main 0 = Inr legacy_header"
  by code_simp

lemma split_stream_header: "DyldCacheHeader_ctor split_stream Main 0 = Inr split_header"
  by code_simp

lemma numbered_stream_header: "DyldCacheHeader_ctor numbered_stream Main 0 = Inr numbered_header"
  by code_simp

lemma example_offset_fields:
  "u32_at legacy_stream 0x10 = 0x180" "u32_at split_stream 0x10 = 0x1D0"
  "u32_at numbered_stream 0x10 = 0x1C8"
  by code_simp+

theorem header_version_gates_witness:
  "DyldCacheHeader_ctor legacy_stream Main 0 = Inr legacy_header \<and>
   u32_at legacy_stream 0x10 = 0x180 \<and>
   symbol_file_uuid legacy_header = DyldUUID_default \<and>
   subcaches legacy_header = [] \<and>
   images_at legacy_stream 0x18 = [\<lparr> Image_base = 0x180004000, Image_path = ''/a.dylib'' \<rparr>] \<and>
   DyldCacheHeader_ctor split_stream Main 0 = Inr split_header \<and>
   u32_at split_stream 0x10 = 0x1D0 \<and>
   take 16 (drop 0x190 split_stream) = [0x11, 0x22, 0x33, 0x44, 0x55, 0x66, 0x77, 0x88, 0x99, 0xAA, 0xBB, 0xCC, 0xDD, 0xEE, 0xFF, 0x0F] \<and>
   subcaches_at split_stream 0x188 False = [\<lparr> vm_off = 0x4000000, suffix = ''.01'' \<rparr>] \<and>
   images_at split_stream 0x1C0 = [\<lparr> Image_base = 0x180004000, Image_path = ''/a.dylib'' \<rparr>] \<and>
   DyldCacheHeader_ctor numbered_stream Main 0 = Inr numbered_header \<and>
   u32_at numbered_stream 0x10 = 0x1C8 \<and>
   subcaches_at numbered_stream 0x188 True =
     [\<lparr> vm_off = 0x4000000, suffix = ''.1'' \<rparr>, \<lparr> vm_off = 0x8000000, suffix = ''.2'' \<rparr>]"
  using header_version_gates [OF legacy_stream_header] header_version_gates [OF split_stream_header]
    header_version_gates [OF numbered_stream_header]
  unfolding example_offset_fields
  by (simp add: legacy_stream_header split_stream_header numbered_stream_header example_offset_fields
      legacy_header_def split_header_def numbered_header_def)

end
